theory Spec2Isabelle
  imports Main "HOL-Library.Word"
begin

section \<open>The range-proof engine of blsct/arith/range\_proof/range\_proof.cpp\<close>

text \<open>
  The source file holds the prover (\<open>RangeProof::Prove\<close> with its inner-product
  argument), the shape validation of the batch verifier and the recovery routine.  The
  scalar field, the curve group, the hash functions, the generator factory and the
  \<open>Config\<close> constants live in other files of the repository; they enter the model
  as parameters: a record of operations (\<open>arith\<close>) and a record of constants
  (\<open>Config\<close>).
\<close>

subsection \<open>Data model\<close>

type_synonym byte = "8 word"

type_synonym TokenId = nat

text \<open>The constants of \<open>Config\<close> that the source file reads.\<close>

record Config =
  m_input_value_bits :: nat
  m_max_input_values :: nat
  m_max_message_size :: nat
  m_max_prove_tries :: nat

text \<open>
  The generators of one token, with the four members that the source file reads:
  \<open>gens.G.get()\<close>, \<open>gens.H\<close>, \<open>gens.Gi\<close> and \<open>gens.Hi\<close>.
\<close>

record 'g Generators =
  gens_G :: 'g
  gens_H :: 'g
  gens_Gi :: "'g list"
  gens_Hi :: "'g list"

text \<open>
  Modelled from the spec: the declaration of \<open>Proof\<close> is not part of the source
  file.  The spec lists the fields \<open>Vs, A, S, T1, T2, tau_x, mu, t_hat, Ls, Rs, a, b\<close>.
  The source names one member more: it writes the inner product of \<open>l\<close> and \<open>r\<close> to
  \<open>proof.t_hat\<close> (line 287, compared at line 294), and it reads \<open>proof.t\<close>
  (lines 304, 400 and 470), which no line of the file writes.  Both are members of the
  record, as the source has them.
\<close>

record ('s, 'g) Proof =
  proof_Vs :: "'g list"
  proof_Ls :: "'g list"
  proof_Rs :: "'g list"
  proof_A :: 'g
  proof_S :: 'g
  proof_T1 :: 'g
  proof_T2 :: 'g
  proof_tau_x :: 's
  proof_mu :: 's
  proof_t_hat :: 's
  proof_t :: 's
  proof_a :: 's
  proof_b :: 's

text \<open>
  The Fiat-Shamir transcript (\<open>CHashWriter\<close>) is append-only.  Its state is the
  list of everything that happened to it: each value fed with \<open><<\<close> and each call of
  \<open>GetHash\<close>.  A challenge is a function of that history.
\<close>

datatype ('s, 'g) event = AppendG 'g | AppendS 's | GetHashCall

type_synonym ('s, 'g) transcript = "('s, 'g) event list"

text \<open>
  The operations of the scalar field (\<open>Scalar\<close>), of the group (\<open>G1Point\<close>), the two
  hash functions, the random source and the generator factory.  None of them is defined
  in the source file, so each is a parameter.  \<open>Scalar_int\<close> is the constructor of a
  scalar from an integer: the source compares a challenge with \<open>0\<close>, and masks with
  \<open>Scalar(0xFFFFFFFFFFFFFFFF)\<close>.  \<open>Rand i\<close> is the \<open>i\<close>-th draw of the random source.
\<close>

record ('s, 'g) arith =
  Scalar_int :: "int \<Rightarrow> 's"
  Scalar_vch :: "byte list \<Rightarrow> 's"
  s_add :: "'s \<Rightarrow> 's \<Rightarrow> 's"
  s_sub :: "'s \<Rightarrow> 's \<Rightarrow> 's"
  s_mul :: "'s \<Rightarrow> 's \<Rightarrow> 's"
  Invert :: "'s \<Rightarrow> 's"
  Square :: "'s \<Rightarrow> 's"
  s_shl :: "'s \<Rightarrow> nat \<Rightarrow> 's"
  s_shr :: "'s \<Rightarrow> nat \<Rightarrow> 's"
  s_or :: "'s \<Rightarrow> 's \<Rightarrow> 's"
  s_and :: "'s \<Rightarrow> 's \<Rightarrow> 's"
  GetBits :: "'s \<Rightarrow> bool list"
  GetVch :: "'s \<Rightarrow> byte list"
  GetUint64 :: "'s \<Rightarrow> 64 word"
  g_unity :: 'g
  g_add :: "'g \<Rightarrow> 'g \<Rightarrow> 'g"
  g_mul :: "'g \<Rightarrow> 's \<Rightarrow> 'g"
  GetHashWithSalt :: "'g \<Rightarrow> nat \<Rightarrow> 's"
  GetHash :: "('s, 'g) transcript \<Rightarrow> 's"
  Rand :: "nat \<Rightarrow> 's"
  GetInstance :: "TokenId \<Rightarrow> 'g Generators"

datatype error =
  MessageTooLarge | EmptyValues | TooManyValues | ExceededTries | Equality60
  | IndexOutOfRange


subsection \<open>Vectors of scalars and of points\<close>

text \<open>
  Modelled from the spec: the containers \<open>Scalars\<close> and \<open>G1Points\<close> are not part
  of the source file.  The spec describes their arithmetic as element-wise
  (\<open>aR = aL - 1\<close>, "element-wise, each bit minus one") and \<open>Sum\<close> of a product as the
  inner product.  It says nothing about operands of different sizes; the model combines
  the positions that both operands have.  \<open>To n\<close> is the prefix of length \<open>n\<close> and
  \<open>From n\<close> the rest.
\<close>

definition Scalars_add :: "('s, 'g) arith \<Rightarrow> 's list \<Rightarrow> 's list \<Rightarrow> 's list" where
  "Scalars_add ar xs ys = map2 (s_add ar) xs ys"

definition Scalars_sub :: "('s, 'g) arith \<Rightarrow> 's list \<Rightarrow> 's list \<Rightarrow> 's list" where
  "Scalars_sub ar xs ys = map2 (s_sub ar) xs ys"

definition Scalars_mul :: "('s, 'g) arith \<Rightarrow> 's list \<Rightarrow> 's list \<Rightarrow> 's list" where
  "Scalars_mul ar xs ys = map2 (s_mul ar) xs ys"

definition Scalars_scale :: "('s, 'g) arith \<Rightarrow> 's list \<Rightarrow> 's \<Rightarrow> 's list" where
  "Scalars_scale ar xs k = map (\<lambda>x. s_mul ar x k) xs"

definition Scalars_Sum :: "('s, 'g) arith \<Rightarrow> 's list \<Rightarrow> 's" where
  "Scalars_Sum ar xs = foldl (s_add ar) (Scalar_int ar 0) xs"

definition G1Points_add :: "('s, 'g) arith \<Rightarrow> 'g list \<Rightarrow> 'g list \<Rightarrow> 'g list" where
  "G1Points_add ar ps qs = map2 (g_add ar) ps qs"

definition G1Points_mul :: "('s, 'g) arith \<Rightarrow> 'g list \<Rightarrow> 's list \<Rightarrow> 'g list" where
  "G1Points_mul ar ps xs = map2 (g_mul ar) ps xs"

definition G1Points_scale :: "('s, 'g) arith \<Rightarrow> 'g list \<Rightarrow> 's \<Rightarrow> 'g list" where
  "G1Points_scale ar ps k = map (\<lambda>p. g_mul ar p k) ps"

definition G1Points_Sum :: "('s, 'g) arith \<Rightarrow> 'g list \<Rightarrow> 'g" where
  "G1Points_Sum ar ps = foldl (g_add ar) (g_unity ar) ps"

definition To :: "'a list \<Rightarrow> nat \<Rightarrow> 'a list" where
  "To xs n = take n xs"

definition From :: "'a list \<Rightarrow> nat \<Rightarrow> 'a list" where
  "From xs n = drop n xs"

text \<open>
  Modelled from the spec: \<open>Scalars::FirstNPow(k, n, from)\<close> gives the \<open>n\<close> consecutive
  powers of \<open>k\<close> that start at exponent \<open>from\<close> (0 when omitted).
\<close>

primrec s_pow :: "('s, 'g) arith \<Rightarrow> 's \<Rightarrow> nat \<Rightarrow> 's" where
  "s_pow ar k 0 = Scalar_int ar 1"
| "s_pow ar k (Suc i) = s_mul ar (s_pow ar k i) k"

definition FirstNPow :: "('s, 'g) arith \<Rightarrow> 's \<Rightarrow> nat \<Rightarrow> nat \<Rightarrow> 's list" where
  "FirstNPow ar k n from_index = map (\<lambda>i. s_pow ar k (from_index + i)) [0..<n]"

text \<open>\<open>Scalars::RandVec(n)\<close>: the next \<open>n\<close> draws of the random source.\<close>

definition RandVec :: "('s, 'g) arith \<Rightarrow> nat \<Rightarrow> nat \<Rightarrow> 's list" where
  "RandVec ar rc n = map (Rand ar) [rc..<rc + n]"

text \<open>
  Reading element 0 of a vector (\<open>a_prime[0]\<close>): outside the vector the C++ is
  undefined; the model reports it.
\<close>

definition elem0 :: "'a list \<Rightarrow> error + 'a" where
  "elem0 xs = (case xs of [] \<Rightarrow> Inl IndexOutOfRange | x # _ \<Rightarrow> Inr x)"

subsection \<open>Number of rounds\<close>

text \<open>
  Modelled from the spec: \<open>GetFirstPowerOf2GreaterOrEqTo\<close> is declared elsewhere; it
  rounds a count up to a power of two.
\<close>

function pow2_from :: "nat \<Rightarrow> nat \<Rightarrow> nat" where
  "pow2_from i n = (if 0 < i \<and> i < n then pow2_from (2 * i) n else i)"
  by pat_completeness auto
termination
  by (relation "measure (\<lambda>(i, n). n - i)") auto

definition GetFirstPowerOf2GreaterOrEqTo :: "nat \<Rightarrow> nat" where
  "GetFirstPowerOf2GreaterOrEqTo n = pow2_from 1 n"

text \<open>
  \<open>std::log2\<close> followed by the conversion of the sum to \<open>size_t\<close>.  The first summand
  is the logarithm of a power of two, a whole number, so truncating the sum truncates
  the second summand: both are the integer logarithm below.  At 0, where
  \<open>std::log2\<close> has no finite value and the conversion is undefined, the model gives 0.
\<close>

fun log2 :: "nat \<Rightarrow> nat" where
  "log2 n = (if n < 2 then 0 else Suc (log2 (n div 2)))"

declare log2.simps [simp del]

definition GetInnerProdArgRounds :: "Config \<Rightarrow> nat \<Rightarrow> nat" where
  "GetInnerProdArgRounds cfg num_input_values =
     (let num_input_values_power_of_2 = GetFirstPowerOf2GreaterOrEqTo num_input_values;
          rounds = log2 num_input_values_power_of_2 + log2 (m_input_value_bits cfg)
      in rounds)"


subsection \<open>The inner-product argument\<close>

text \<open>
  The round messages of lines 59 to 74, for the halved \<open>n_prime\<close>: the cross inner
  product, scaled by \<open>x_ip\<close> on the generator \<open>H\<close>, and the two folded sums.  In
  round 0 the source multiplies all of \<open>b_prime\<close> by a half of \<open>scale_factors\<close>.
\<close>

definition round_L ::
  "('s, 'g) arith \<Rightarrow> 'g Generators \<Rightarrow> 's \<Rightarrow> 's list \<Rightarrow> 'g list \<Rightarrow> 'g list \<Rightarrow>
   's list \<Rightarrow> 's list \<Rightarrow> nat \<Rightarrow> nat \<Rightarrow> 'g" where
  "round_L ar gens x_ip scale_factors g_prime h_prime a_prime b_prime n_prime round =
     (let cL = Scalars_Sum ar (Scalars_mul ar (To a_prime n_prime) (From b_prime n_prime));
          extra_scalar_cL = s_mul ar cL x_ip
      in g_add ar
           (g_add ar
              (G1Points_Sum ar (G1Points_mul ar (From g_prime n_prime) (To a_prime n_prime)))
              (G1Points_Sum ar (G1Points_mul ar (To h_prime n_prime)
                 (if round = 0 then Scalars_mul ar b_prime (To scale_factors n_prime)
                  else From b_prime n_prime))))
           (g_mul ar (gens_H gens) extra_scalar_cL))"

definition round_R ::
  "('s, 'g) arith \<Rightarrow> 'g Generators \<Rightarrow> 's \<Rightarrow> 's list \<Rightarrow> 'g list \<Rightarrow> 'g list \<Rightarrow>
   's list \<Rightarrow> 's list \<Rightarrow> nat \<Rightarrow> nat \<Rightarrow> 'g" where
  "round_R ar gens x_ip scale_factors g_prime h_prime a_prime b_prime n_prime round =
     (let cR = Scalars_Sum ar (Scalars_mul ar (From a_prime n_prime) (To b_prime n_prime));
          extra_scalar_cR = s_mul ar cR x_ip
      in g_add ar
           (g_add ar
              (G1Points_Sum ar (G1Points_mul ar (To g_prime n_prime) (From a_prime n_prime)))
              (G1Points_Sum ar (G1Points_mul ar (From h_prime n_prime)
                 (if round = 0 then Scalars_mul ar b_prime (From scale_factors n_prime)
                  else To b_prime n_prime))))
           (g_mul ar (gens_H gens) extra_scalar_cR))"

text \<open>The folding of lines 87 to 98 with the round's challenge \<open>x\<close>.\<close>

definition fold_g :: "('s, 'g) arith \<Rightarrow> 'g list \<Rightarrow> nat \<Rightarrow> 's \<Rightarrow> 's \<Rightarrow> 'g list" where
  "fold_g ar g_prime n_prime x x_inv =
     (if n_prime > 1
      then G1Points_add ar (G1Points_scale ar (To g_prime n_prime) x_inv)
             (G1Points_scale ar (From g_prime n_prime) x)
      else g_prime)"

definition fold_h ::
  "('s, 'g) arith \<Rightarrow> 's list \<Rightarrow> 'g list \<Rightarrow> nat \<Rightarrow> 's \<Rightarrow> 's \<Rightarrow> 'g list" where
  "fold_h ar scale_factors h_prime n_prime x x_inv =
     (if n_prime > 1
      then
        (let sf_ws = Scalars_scale ar scale_factors x;
             sf_w_invs = Scalars_scale ar scale_factors x_inv
         in G1Points_add ar (G1Points_mul ar (To h_prime n_prime) sf_ws)
              (G1Points_mul ar (From h_prime n_prime) sf_w_invs))
      else h_prime)"

definition fold_a :: "('s, 'g) arith \<Rightarrow> 's list \<Rightarrow> nat \<Rightarrow> 's \<Rightarrow> 's \<Rightarrow> 's list" where
  "fold_a ar a_prime n_prime x x_inv =
     Scalars_add ar (Scalars_scale ar (To a_prime n_prime) x)
       (Scalars_scale ar (From a_prime n_prime) x_inv)"

definition fold_b :: "('s, 'g) arith \<Rightarrow> 's list \<Rightarrow> nat \<Rightarrow> 's \<Rightarrow> 's \<Rightarrow> 's list" where
  "fold_b ar b_prime n_prime x x_inv =
     Scalars_add ar (Scalars_scale ar (To b_prime n_prime) x_inv)
       (Scalars_scale ar (From b_prime n_prime) x)"

text \<open>
  The \<open>while (n_prime > 1)\<close> loop of \<open>InnerProductArgument\<close>.  The proof and the
  transcript are passed by reference in the source: the function returns them as it
  leaves them, also when it returns \<open>false\<close> on a zero challenge.  \<open>proof.Ls[round]\<close>
  is read right after \<open>proof.Ls.Add\<close>; the vector then has more than \<open>round\<close>
  entries whenever it had at least \<open>round\<close> before.
\<close>

function IPA_loop ::
  "('s, 'g) arith \<Rightarrow> 'g Generators \<Rightarrow> 's \<Rightarrow> 's list \<Rightarrow>
   'g list \<Rightarrow> 'g list \<Rightarrow> 's list \<Rightarrow> 's list \<Rightarrow> nat \<Rightarrow> nat \<Rightarrow> 's list \<Rightarrow>
   ('s, 'g) Proof \<Rightarrow> ('s, 'g) transcript \<Rightarrow>
   error + (bool \<times> ('s, 'g) Proof \<times> ('s, 'g) transcript)" where
  "IPA_loop ar gens x_ip scale_factors g_prime h_prime a_prime b_prime n_prime round xs
     proof transcript =
   (if n_prime > 1 then
      (let n_prime = n_prime div 2;
           proof = proof\<lparr>proof_Ls := proof_Ls proof @
             [round_L ar gens x_ip scale_factors g_prime h_prime a_prime b_prime n_prime round]\<rparr>;
           proof = proof\<lparr>proof_Rs := proof_Rs proof @
             [round_R ar gens x_ip scale_factors g_prime h_prime a_prime b_prime n_prime round]\<rparr>;
           transcript = transcript @ [AppendG (proof_Ls proof ! round)];
           transcript = transcript @ [AppendG (proof_Rs proof ! round)];
           x = GetHash ar transcript;
           transcript = transcript @ [GetHashCall]
       in if x = Scalar_int ar 0 then Inr (False, proof, transcript)
          else
            (let x_inv = Invert ar x;
                 xs = xs @ [x]
             in IPA_loop ar gens x_ip scale_factors
                  (fold_g ar g_prime n_prime x x_inv)
                  (fold_h ar scale_factors h_prime n_prime x x_inv)
                  (fold_a ar a_prime n_prime x x_inv)
                  (fold_b ar b_prime n_prime x x_inv)
                  n_prime (round + 1) xs proof transcript))
    else
      (case elem0 a_prime of
         Inl e \<Rightarrow> Inl e
       | Inr a0 \<Rightarrow>
           (case elem0 b_prime of
              Inl e \<Rightarrow> Inl e
            | Inr b0 \<Rightarrow> Inr (True, proof\<lparr>proof_a := a0, proof_b := b0\<rparr>, transcript))))"
  by pat_completeness auto
termination
  by (relation "measure (\<lambda>(ar, gens, x_ip, sf, g, h, a, b, n, r, xs, p, t). n)") auto

declare IPA_loop.simps [simp del]

definition InnerProductArgument ::
  "('s, 'g) arith \<Rightarrow> nat \<Rightarrow> 'g Generators \<Rightarrow> 's \<Rightarrow> 's list \<Rightarrow> 's list \<Rightarrow> 's \<Rightarrow>
   ('s, 'g) Proof \<Rightarrow> ('s, 'g) transcript \<Rightarrow>
   error + (bool \<times> ('s, 'g) Proof \<times> ('s, 'g) transcript)" where
  "InnerProductArgument ar input_value_vec_len gens x_ip l r y proof transcript =
     (let scale_factors = FirstNPow ar (Invert ar y) input_value_vec_len 0;
          g_prime = gens_Gi gens;
          h_prime = gens_Hi gens;
          a_prime = l;
          b_prime = r;
          n_prime = input_value_vec_len;
          round = 0;
          xs = []
      in IPA_loop ar gens x_ip scale_factors g_prime h_prime a_prime b_prime n_prime round xs
           proof transcript)"


subsection \<open>The prover\<close>

text \<open>
  A default-constructed \<open>Proof\<close> (line 136): empty vectors, the group's unity, scalar
  zero.  \<open>Prove\<close> writes every member before it reads it, except \<open>t\<close>.
\<close>

definition empty_Proof :: "('s, 'g) arith \<Rightarrow> ('s, 'g) Proof" where
  "empty_Proof ar =
     \<lparr>proof_Vs = [], proof_Ls = [], proof_Rs = [],
      proof_A = g_unity ar, proof_S = g_unity ar, proof_T1 = g_unity ar, proof_T2 = g_unity ar,
      proof_tau_x = Scalar_int ar 0, proof_mu = Scalar_int ar 0, proof_t_hat = Scalar_int ar 0,
      proof_t = Scalar_int ar 0, proof_a = Scalar_int ar 0, proof_b = Scalar_int ar 0\<rparr>"

text \<open>
  One input value's share of \<open>aL\<close> (lines 161 to 168): its bits, then
  \<open>Config::m_input_value_bits - bits.size()\<close> times \<open>false\<close>.  The difference is
  computed in \<open>size_t\<close>, 64 bits wide, and wraps around when the value has more bits
  than the configured width.
\<close>

definition value_bits :: "('s, 'g) arith \<Rightarrow> Config \<Rightarrow> 's \<Rightarrow> 's list" where
  "value_bits ar cfg v =
     (let bits = GetBits ar v
      in map (\<lambda>bit. Scalar_int ar (if bit then 1 else 0)) bits @
         replicate (nat ((int (m_input_value_bits cfg) - int (length bits)) mod 2 ^ 64))
           (Scalar_int ar 0))"

text \<open>The loop over the input values (lines 159 to 169); nothing is added after it.\<close>

definition flatten_aL :: "('s, 'g) arith \<Rightarrow> Config \<Rightarrow> 's list \<Rightarrow> 's list" where
  "flatten_aL ar cfg vs = foldl (\<lambda>aL v. aL @ value_bits ar cfg v) [] vs"

text \<open>
  The pieces of one pass through the code after the label \<open>try_again\<close>, in the
  order of the source.  First the blinding scalar \<open>alpha\<close> with the packed message and
  first value, and the commitment \<open>A\<close> (lines 189 to 201).
\<close>

definition commit_A ::
  "('s, 'g) arith \<Rightarrow> Config \<Rightarrow> 'g Generators \<Rightarrow> 's list \<Rightarrow> 'g \<Rightarrow> byte list \<Rightarrow>
   's list \<Rightarrow> 's list \<Rightarrow> 's \<times> 'g" where
  "commit_A ar cfg gens vs nonce message aL aR =
     (let msg1_scalar = Scalar_vch ar
            (if length message > 23 then take 23 message else message);
          msg1_v0 = s_or ar (s_shl ar msg1_scalar (m_input_value_bits cfg)) (vs ! 0);
          alpha = GetHashWithSalt ar nonce 1;
          alpha = s_add ar alpha msg1_v0
      in (alpha,
          g_add ar
            (g_add ar (g_mul ar (gens_H gens) alpha)
               (G1Points_Sum ar (G1Points_mul ar (gens_Gi gens) aL)))
            (G1Points_Sum ar (G1Points_mul ar (gens_Hi gens) aR))))"

text \<open>The commitment \<open>S\<close> to the blinding vectors (lines 208 to 210).\<close>

definition commit_S ::
  "('s, 'g) arith \<Rightarrow> 'g Generators \<Rightarrow> 'g \<Rightarrow> 's list \<Rightarrow> 's list \<Rightarrow> 's \<times> 'g" where
  "commit_S ar gens nonce sL sR =
     (let rho = GetHashWithSalt ar nonce 2
      in (rho,
          g_add ar
            (g_add ar (g_mul ar (gens_H gens) rho)
               (G1Points_Sum ar (G1Points_mul ar (gens_Gi gens) sL)))
            (G1Points_Sum ar (G1Points_mul ar (gens_Hi gens) sR))))"

text \<open>
  The coefficients of the polynomials \<open>l\<close>, \<open>r\<close> and \<open>t\<close> and the blinding scalars of
  \<open>T1\<close> and \<open>T2\<close> (lines 231 to 268).  \<open>m_two_pows\<close> is the static table that the
  constructor fills with \<open>FirstNPow(m_two, Config::m_input_value_bits)\<close>.  The loop of
  lines 242 to 248 runs over all \<open>concat_input_values_in_bits\<close> positions and adds
  \<open>Config::m_input_value_bits\<close> entries for each.
\<close>

record 's polynomials =
  poly_l0 :: "'s list"
  poly_l1 :: "'s list"
  poly_r0 :: "'s list"
  poly_r1 :: "'s list"
  poly_t1 :: 's
  poly_t2 :: 's
  poly_tau1 :: 's
  poly_tau2 :: 's
  poly_z_pows :: "'s list"

definition build_polynomials ::
  "('s, 'g) arith \<Rightarrow> Config \<Rightarrow> 'g \<Rightarrow> byte list \<Rightarrow> 's list \<Rightarrow> 's list \<Rightarrow> 's list \<Rightarrow>
   's list \<Rightarrow> nat \<Rightarrow> 's \<Rightarrow> 's \<Rightarrow> 's polynomials" where
  "build_polynomials ar cfg nonce message aL aR sL sR concat_input_values_in_bits y z =
     (let m_two = Scalar_int ar 2;
          m_two_pows = FirstNPow ar m_two (m_input_value_bits cfg) 0;
          z_value_total_bits = FirstNPow ar z concat_input_values_in_bits 0;
          l0 = Scalars_sub ar aL z_value_total_bits;
          l1 = sL;
          z_pows = FirstNPow ar z concat_input_values_in_bits 2;
          z_n_times_two_n = concat (map (\<lambda>i.
              (let base_z = z_pows ! i
               in map (\<lambda>bit_idx. s_mul ar base_z (m_two_pows ! bit_idx))
                    [0..<m_input_value_bits cfg]))
            [0..<concat_input_values_in_bits]);
          y_value_total_bits = FirstNPow ar y concat_input_values_in_bits 0;
          r0 = Scalars_add ar
                 (Scalars_mul ar y_value_total_bits (Scalars_add ar aR z_value_total_bits))
                 z_n_times_two_n;
          r1 = Scalars_mul ar y_value_total_bits sR;
          t1 = s_add ar (Scalars_Sum ar (Scalars_mul ar l0 r1))
                        (Scalars_Sum ar (Scalars_mul ar l1 r0));
          t2 = Scalars_Sum ar (Scalars_mul ar l1 r1);
          tau1 = GetHashWithSalt ar nonce 3;
          tau2 = GetHashWithSalt ar nonce 4;
          msg2_scalar = Scalar_vch ar
            (if length message > 23 then drop 23 message else []);
          tau1 = s_add ar tau1 msg2_scalar
      in \<lparr>poly_l0 = l0, poly_l1 = l1, poly_r0 = r0, poly_r1 = r1, poly_t1 = t1, poly_t2 = t2,
          poly_tau1 = tau1, poly_tau2 = tau2, poly_z_pows = z_pows\<rparr>)"

text \<open>The right-hand side of equation (60), lines 290 and 291.\<close>

definition t_of_x :: "('s, 'g) arith \<Rightarrow> 's polynomials \<Rightarrow> 's \<Rightarrow> 's" where
  "t_of_x ar pc x =
     (let t0 = Scalars_Sum ar (Scalars_mul ar (poly_l0 pc) (poly_r0 pc))
      in s_add ar (s_add ar t0 (s_mul ar (poly_t1 pc) x)) (s_mul ar (poly_t2 pc) (Square ar x)))"

text \<open>
  One pass through the code that follows the label \<open>try_again\<close>, after the test of
  \<open>num_tries\<close>: it ends with \<open>goto try_again\<close>, with \<open>return proof\<close> or with a
  \<open>throw\<close>.  The proof and the transcript keep what the pass wrote into them.
  \<open>vs[0]\<close> is read after the test that \<open>vs\<close> is not empty.  After \<open>x\<close>, \<open>tau_x\<close>
  and \<open>mu\<close> the transcript is fed \<open>proof.t\<close> (line 304), not \<open>proof.t_hat\<close>.
\<close>

datatype ('s, 'g) outcome =
    Retry "('s, 'g) Proof" "('s, 'g) transcript" nat
  | Done "('s, 'g) Proof" "('s, 'g) transcript"
  | Thrown error "('s, 'g) transcript"

definition attempt ::
  "('s, 'g) arith \<Rightarrow> Config \<Rightarrow> 'g Generators \<Rightarrow> 's list \<Rightarrow> 'g \<Rightarrow> byte list \<Rightarrow>
   's list \<Rightarrow> 's list \<Rightarrow> 's list \<Rightarrow> nat \<Rightarrow>
   ('s, 'g) Proof \<Rightarrow> ('s, 'g) transcript \<Rightarrow> nat \<Rightarrow> ('s, 'g) outcome" where
  "attempt ar cfg gens vs nonce message gammas aL aR concat_input_values_in_bits
     proof transcript rc =
   (let (alpha, A) = commit_A ar cfg gens vs nonce message aL aR;
        proof = proof\<lparr>proof_A := A\<rparr>;
        sL = RandVec ar rc (m_input_value_bits cfg);
        sR = RandVec ar (rc + m_input_value_bits cfg) (m_input_value_bits cfg);
        rc = rc + 2 * m_input_value_bits cfg;
        (rho, S) = commit_S ar gens nonce sL sR;
        proof = proof\<lparr>proof_S := S\<rparr>;
        transcript = transcript @ [AppendG (proof_A proof)];
        transcript = transcript @ [AppendG (proof_S proof)];
        y = GetHash ar transcript;
        transcript = transcript @ [GetHashCall]
    in if y = Scalar_int ar 0 then Retry proof transcript rc
    else
   (let transcript = transcript @ [AppendS y];
        z = GetHash ar transcript;
        transcript = transcript @ [GetHashCall]
    in if z = Scalar_int ar 0 then Retry proof transcript rc
    else
   (let transcript = transcript @ [AppendS z];
        pc = build_polynomials ar cfg nonce message aL aR sL sR
               concat_input_values_in_bits y z;
        proof = proof\<lparr>proof_T1 :=
          g_add ar (g_mul ar (gens_G gens) (poly_t1 pc))
                   (g_mul ar (gens_H gens) (poly_tau1 pc))\<rparr>;
        proof = proof\<lparr>proof_T2 :=
          g_add ar (g_mul ar (gens_G gens) (poly_t2 pc))
                   (g_mul ar (gens_H gens) (poly_tau2 pc))\<rparr>;
        transcript = transcript @ [AppendG (proof_T1 proof)];
        transcript = transcript @ [AppendG (proof_T2 proof)];
        x = GetHash ar transcript;
        transcript = transcript @ [GetHashCall]
    in if x = Scalar_int ar 0 then Retry proof transcript rc
    else
   (let l = Scalars_add ar (poly_l0 pc) (Scalars_scale ar (poly_l1 pc) x);
        r = Scalars_add ar (poly_r0 pc) (Scalars_scale ar (poly_r1 pc) x);
        proof = proof\<lparr>proof_t_hat := Scalars_Sum ar (Scalars_mul ar l r)\<rparr>
    in if proof_t_hat proof \<noteq> t_of_x ar pc x then Thrown Equality60 transcript
    else
   (let proof = proof\<lparr>proof_tau_x :=
          s_add ar
            (s_add ar (s_mul ar (poly_tau2 pc) (Square ar x)) (s_mul ar (poly_tau1 pc) x))
            (Scalars_Sum ar (Scalars_mul ar (poly_z_pows pc) gammas))\<rparr>;
        proof = proof\<lparr>proof_mu := s_add ar alpha (s_mul ar rho x)\<rparr>;
        transcript = transcript @ [AppendS x];
        transcript = transcript @ [AppendS (proof_tau_x proof)];
        transcript = transcript @ [AppendS (proof_mu proof)];
        transcript = transcript @ [AppendS (proof_t proof)];
        x_ip = GetHash ar transcript;
        transcript = transcript @ [GetHashCall]
    in if x_ip = Scalar_int ar 0 then Retry proof transcript rc
    else
      (case InnerProductArgument ar concat_input_values_in_bits gens x_ip l r y
              proof transcript of
         Inl e \<Rightarrow> Thrown e transcript
       | Inr (ok, proof, transcript) \<Rightarrow>
           if \<not> ok then Retry proof transcript rc else Done proof transcript))))))"

text \<open>
  The label \<open>try_again\<close> with its counter: \<open>++num_tries > Config::m_max_prove_tries\<close>
  throws, otherwise one pass runs.  The result carries the transcript and the counter
  as the call leaves them.
\<close>

function try_again ::
  "('s, 'g) arith \<Rightarrow> Config \<Rightarrow> 'g Generators \<Rightarrow> 's list \<Rightarrow> 'g \<Rightarrow> byte list \<Rightarrow>
   's list \<Rightarrow> 's list \<Rightarrow> 's list \<Rightarrow> nat \<Rightarrow>
   nat \<Rightarrow> ('s, 'g) Proof \<Rightarrow> ('s, 'g) transcript \<Rightarrow> nat \<Rightarrow>
   (error + ('s, 'g) Proof) \<times> ('s, 'g) transcript \<times> nat" where
  "try_again ar cfg gens vs nonce message gammas aL aR concat_input_values_in_bits
     num_tries proof transcript rc =
   (let num_tries = num_tries + 1
    in if num_tries > m_max_prove_tries cfg then (Inl ExceededTries, transcript, num_tries)
       else
         (case attempt ar cfg gens vs nonce message gammas aL aR concat_input_values_in_bits
                 proof transcript rc of
            Retry proof' transcript' rc' \<Rightarrow>
              try_again ar cfg gens vs nonce message gammas aL aR concat_input_values_in_bits
                num_tries proof' transcript' rc'
          | Done proof' transcript' \<Rightarrow> (Inr proof', transcript', num_tries)
          | Thrown e transcript' \<Rightarrow> (Inl e, transcript', num_tries)))"
  by pat_completeness auto
termination
  by (relation "measure (\<lambda>(ar, cfg, gens, vs, nonce, message, gammas, aL, aR, c,
        num_tries, p, t, rc). Suc (m_max_prove_tries cfg) - num_tries)") auto

declare try_again.simps [simp del]

definition Prove_run ::
  "('s, 'g) arith \<Rightarrow> Config \<Rightarrow> 's list \<Rightarrow> 'g \<Rightarrow> byte list \<Rightarrow> TokenId \<Rightarrow>
   (error + ('s, 'g) Proof) \<times> ('s, 'g) transcript \<times> nat" where
  "Prove_run ar cfg vs nonce message token_id =
   (if length message > m_max_message_size cfg then (Inl MessageTooLarge, [], 0)
    else if vs = [] then (Inl EmptyValues, [], 0)
    else if length vs > m_max_input_values cfg then (Inl TooManyValues, [], 0)
    else
     (let num_input_values_power_2 = GetFirstPowerOf2GreaterOrEqTo (length vs);
          concat_input_values_in_bits = num_input_values_power_2 * m_input_value_bits cfg;
          proof = empty_Proof ar;
          gammas = map (\<lambda>i. GetHashWithSalt ar nonce (100 + i)) [0..<length vs];
          gens = GetInstance ar token_id;
          transcript = [];
          proof = proof\<lparr>proof_Vs :=
            G1Points_add ar (map (g_mul ar (gens_H gens)) gammas)
              (map (g_mul ar (gens_G gens)) vs)\<rparr>;
          transcript = transcript @ map (\<lambda>i. AppendG (proof_Vs proof ! i)) [0..<length vs];
          aL = flatten_aL ar cfg vs;
          one_value_concat_bits = FirstNPow ar (Scalar_int ar 1) concat_input_values_in_bits 0;
          aR = Scalars_sub ar aL one_value_concat_bits;
          num_tries = 0
      in try_again ar cfg gens vs nonce message gammas aL aR concat_input_values_in_bits
           num_tries proof transcript 0))"

text \<open>\<open>RangeProof::Prove\<close>: the proof, or the exception.\<close>

definition Prove ::
  "('s, 'g) arith \<Rightarrow> Config \<Rightarrow> 's list \<Rightarrow> 'g \<Rightarrow> byte list \<Rightarrow> TokenId \<Rightarrow>
   error + ('s, 'g) Proof" where
  "Prove ar cfg vs nonce message token_id = fst (Prove_run ar cfg vs nonce message token_id)"


subsection \<open>The verifier's shape validation\<close>

fun ValidateProofsBySizes :: "Config \<Rightarrow> (nat \<times> ('s, 'g) Proof) list \<Rightarrow> nat \<Rightarrow> bool" where
  "ValidateProofsBySizes cfg [] num_rounds = True"
| "ValidateProofsBySizes cfg (p # indexed_proofs) num_rounds =
     (let proof = snd p
      in if length (proof_Vs proof) = 0 then False
         else if length (proof_Vs proof) > m_max_input_values cfg then False
         else if length (proof_Ls proof) \<noteq> num_rounds then False
         else if length (proof_Ls proof) \<noteq> length (proof_Rs proof) then False
         else ValidateProofsBySizes cfg indexed_proofs num_rounds)"

text \<open>
  \<open>RangeProof::Verify\<close>.  Its first two statements are modelled as written: the number
  of rounds is \<open>GetInnerProdArgRounds(Config::m_input_value_bits)\<close>, and a batch that
  fails \<open>ValidateProofsBySizes\<close> is rejected.  What follows (the replay of the
  transcripts by \<open>ProofWithDerivedValues::Build\<close>, which is declared elsewhere, and the
  aggregation of \<open>VerifyLoop2\<close>, whose body ends without a \<open>return\<close>) is the
  parameter \<open>batch_check\<close>: the verdict of the multi-exponentiation test on a batch
  that passed the validation.
\<close>

definition Verify ::
  "Config \<Rightarrow> (nat \<Rightarrow> (nat \<times> ('s, 'g) Proof) list \<Rightarrow> TokenId \<Rightarrow> bool) \<Rightarrow>
   (nat \<times> ('s, 'g) Proof) list \<Rightarrow> TokenId \<Rightarrow> bool" where
  "Verify cfg batch_check indexed_proofs token_id =
     (let num_rounds = GetInnerProdArgRounds cfg (m_input_value_bits cfg)
      in if \<not> ValidateProofsBySizes cfg indexed_proofs num_rounds then False
         else batch_check num_rounds indexed_proofs token_id)"

subsection \<open>Recovery\<close>

text \<open>
  The members of \<open>TxInToRecover\<close> that \<open>RecoverTxIns\<close> reads; the struct itself is
  declared elsewhere.
\<close>

record ('s, 'g) TxInToRecover =
  tx_index :: nat
  tx_Vs :: "'g list"
  tx_Ls :: "'g list"
  tx_Rs :: "'g list"
  tx_mu :: 's
  tx_tau_x :: 's
  tx_x :: 's
  tx_z :: 's
  tx_nonce :: 'g

text \<open>
  The four arguments of the \<open>RecoveredTxInput\<close> constructor call at line 573: the
  index, the amount, the blinding factor and the message.
\<close>

record 's RecoveredTxInput =
  rec_index :: nat
  rec_amount :: "64 word"
  rec_gamma :: 's
  rec_message :: "byte list"

text \<open>The loop of \<open>GetTrimmedVch\<close> with its flag \<open>take_char\<close>.\<close>

fun trim_loop :: "bool \<Rightarrow> byte list \<Rightarrow> byte list \<Rightarrow> byte list" where
  "trim_loop take_char [] vch_trimmed = vch_trimmed"
| "trim_loop take_char (c # vch) vch_trimmed =
     (let take_char = (if \<not> take_char \<and> c \<noteq> 0 then True else take_char);
          vch_trimmed = (if take_char then vch_trimmed @ [c] else vch_trimmed)
      in trim_loop take_char vch vch_trimmed)"

definition GetTrimmedVch :: "('s, 'g) arith \<Rightarrow> 's \<Rightarrow> byte list" where
  "GetTrimmedVch ar s = trim_loop False (GetVch ar s) []"

text \<open>
  The scalars that the body of the loop of \<open>RecoverTxIns\<close> computes for one input,
  under the names the source gives them.
\<close>

definition message_v0 :: "('s, 'g) arith \<Rightarrow> ('s, 'g) TxInToRecover \<Rightarrow> 's" where
  "message_v0 ar tx_in =
     (let alpha = GetHashWithSalt ar (tx_nonce tx_in) 1;
          rho = GetHashWithSalt ar (tx_nonce tx_in) 2
      in s_sub ar (s_sub ar (tx_mu tx_in) (s_mul ar rho (tx_x tx_in))) alpha)"

definition input_value0 :: "('s, 'g) arith \<Rightarrow> ('s, 'g) TxInToRecover \<Rightarrow> 's" where
  "input_value0 ar tx_in = s_and ar (message_v0 ar tx_in) (Scalar_int ar 0xFFFFFFFFFFFFFFFF)"

definition input_value0_commitment ::
  "('s, 'g) arith \<Rightarrow> 'g Generators \<Rightarrow> ('s, 'g) TxInToRecover \<Rightarrow> 'g" where
  "input_value0_commitment ar gens tx_in =
     (let input_value0_gamma = GetHashWithSalt ar (tx_nonce tx_in) 100
      in g_add ar (g_mul ar (gens_G gens) input_value0_gamma)
                  (g_mul ar (gens_H gens) (input_value0 ar tx_in)))"

definition msg2_scalar :: "('s, 'g) arith \<Rightarrow> ('s, 'g) TxInToRecover \<Rightarrow> 's" where
  "msg2_scalar ar tx_in =
     (let tau1 = GetHashWithSalt ar (tx_nonce tx_in) 3;
          tau2 = GetHashWithSalt ar (tx_nonce tx_in) 4;
          input_value0_gamma = GetHashWithSalt ar (tx_nonce tx_in) 100;
          tau_x = tx_tau_x tx_in;
          x = tx_x tx_in;
          z = tx_z tx_in
      in s_sub ar
           (s_mul ar
              (s_sub ar (s_sub ar tau_x (s_mul ar tau2 (Square ar x)))
                 (s_mul ar (Square ar z) input_value0_gamma))
              (Invert ar x))
           tau1)"

text \<open>
  The body of the loop of \<open>RecoverTxIns\<close> for one input: \<open>None\<close> where the source
  says \<open>continue\<close>, the entry it pushes otherwise.  \<open>tx_in.Vs[0]\<close> is read only
  after the test that \<open>Vs\<close> is not empty.
\<close>

definition recover_one ::
  "('s, 'g) arith \<Rightarrow> 'g Generators \<Rightarrow> ('s, 'g) TxInToRecover \<Rightarrow> 's RecoveredTxInput option" where
  "recover_one ar gens tx_in =
   (let Ls_Rs_valid = (length (tx_Ls tx_in) > 0 \<and> length (tx_Ls tx_in) = length (tx_Rs tx_in))
    in if length (tx_Vs tx_in) = 0 \<or> \<not> Ls_Rs_valid then None
       else if input_value0_commitment ar gens tx_in \<noteq> tx_Vs tx_in ! 0 then None
       else
         (let msg1 = GetTrimmedVch ar (s_shr ar (message_v0 ar tx_in) 64);
              msg2 = GetTrimmedVch ar (msg2_scalar ar tx_in)
          in Some \<lparr>rec_index = tx_index tx_in,
                   rec_amount = GetUint64 ar (input_value0 ar tx_in),
                   rec_gamma = GetHashWithSalt ar (tx_nonce tx_in) 100,
                   rec_message = msg1 @ msg2\<rparr>))"

fun RecoverTxIns_loop ::
  "('s, 'g) arith \<Rightarrow> 'g Generators \<Rightarrow> ('s, 'g) TxInToRecover list \<Rightarrow>
   's RecoveredTxInput list \<Rightarrow> 's RecoveredTxInput list" where
  "RecoverTxIns_loop ar gens [] recovered_tx_ins = recovered_tx_ins"
| "RecoverTxIns_loop ar gens (tx_in # tx_ins) recovered_tx_ins =
     (case recover_one ar gens tx_in of
        None \<Rightarrow> RecoverTxIns_loop ar gens tx_ins recovered_tx_ins
      | Some recovered_tx_in \<Rightarrow>
          RecoverTxIns_loop ar gens tx_ins (recovered_tx_ins @ [recovered_tx_in]))"

definition RecoverTxIns ::
  "('s, 'g) arith \<Rightarrow> ('s, 'g) TxInToRecover list \<Rightarrow> TokenId \<Rightarrow> 's RecoveredTxInput list" where
  "RecoverTxIns ar tx_ins token_id =
     (let gens = GetInstance ar token_id
      in RecoverTxIns_loop ar gens tx_ins [])"

subsection \<open>A concrete arithmetic\<close>

text \<open>
  For running the model: the integers modulo \<open>q\<close> as scalars, and as group the same
  integers under addition (a cyclic group of order \<open>q\<close>, each point written as its
  multiple of a fixed base point).  Bytes are read big-endian, \<open>GetVch\<close> writes 32
  bytes, \<open>GetBits\<close> lists the binary digits from the lowest.  The transcript hash, the
  generators and the modulus are arguments, so that an example can choose them.
\<close>

datatype point = Point int

fun bits_of :: "int \<Rightarrow> bool list" where
  "bits_of n = (if n \<le> 0 then [] else (n mod 2 = 1) # bits_of (n div 2))"

declare bits_of.simps [simp del]

text \<open>The inverse modulo \<open>q\<close> by Euclid's algorithm on the remainders.\<close>

function inv_loop :: "int \<Rightarrow> int \<Rightarrow> int \<Rightarrow> int \<Rightarrow> int" where
  "inv_loop r0 r1 t0 t1 =
     (if r1 \<le> 0 then t0
      else inv_loop r1 (r0 mod r1) t1 (t0 - (r0 div r1) * t1))"
  by pat_completeness auto
termination
  by (relation "measure (\<lambda>(r0, r1, t0, t1). nat r1)") auto

declare inv_loop.simps [simp del]

fun point_add :: "int \<Rightarrow> point \<Rightarrow> point \<Rightarrow> point" where
  "point_add q (Point m) (Point n) = Point ((m + n) mod q)"

fun point_mul :: "int \<Rightarrow> point \<Rightarrow> int \<Rightarrow> point" where
  "point_mul q (Point m) k = Point (m * k mod q)"

fun salted_hash :: "int \<Rightarrow> point \<Rightarrow> nat \<Rightarrow> int" where
  "salted_hash q (Point m) salt = (m * 7919 + int salt * 104729 + 12345) mod q"

definition mod_arith ::
  "int \<Rightarrow> point Generators \<Rightarrow> ((int, point) transcript \<Rightarrow> int) \<Rightarrow> (int, point) arith" where
  "mod_arith q gens hash =
     \<lparr>Scalar_int = (\<lambda>n. n mod q),
      Scalar_vch = (\<lambda>vch. foldl (\<lambda>acc c. acc * 256 + uint c) 0 vch mod q),
      s_add = (\<lambda>m n. (m + n) mod q),
      s_sub = (\<lambda>m n. (m - n) mod q),
      s_mul = (\<lambda>m n. m * n mod q),
      Invert = (\<lambda>m. inv_loop q (m mod q) 0 1 mod q),
      Square = (\<lambda>m. m * m mod q),
      s_shl = (\<lambda>m n. m * 2 ^ n mod q),
      s_shr = (\<lambda>m n. m div 2 ^ n),
      s_or = (\<lambda>m n. or m n mod q),
      s_and = (\<lambda>m n. and m n),
      GetBits = bits_of,
      GetVch = (\<lambda>m. map (\<lambda>i. word_of_int (m div 256 ^ (31 - i))) [0..<32]),
      GetUint64 = word_of_int,
      g_unity = Point 0,
      g_add = point_add q,
      g_mul = point_mul q,
      GetHashWithSalt = salted_hash q,
      GetHash = hash,
      Rand = (\<lambda>i. int i mod (q - 1) + 1),
      GetInstance = (\<lambda>token_id. gens)\<rparr>"

text \<open>
  A transcript hash for the examples: it counts the events of the transcript, and is
  zero exactly at the event counts listed in \<open>zero_at\<close>.
\<close>

definition count_hash :: "int \<Rightarrow> nat list \<Rightarrow> (int, point) transcript \<Rightarrow> int" where
  "count_hash q zero_at transcript =
     (if length transcript \<in> set zero_at then 0
      else int (length transcript) mod (q - 1) + 1)"


subsection \<open>Example inputs\<close>

text \<open>
  A small configuration (4 bits per value, at most 2 values, 3 tries) with eight
  generators modulo 101, and a configuration with 64 bits per value and at most 16
  values.  \<open>example_arith zero_at\<close> draws a zero challenge at the listed event counts.
\<close>

definition example_config :: Config where
  "example_config =
     \<lparr>m_input_value_bits = 4, m_max_input_values = 2, m_max_message_size = 54,
      m_max_prove_tries = 3\<rparr>"

definition config_64 :: Config where
  "config_64 =
     \<lparr>m_input_value_bits = 64, m_max_input_values = 16, m_max_message_size = 54,
      m_max_prove_tries = 100\<rparr>"

definition example_gens :: "point Generators" where
  "example_gens =
     \<lparr>gens_G = Point 2, gens_H = Point 3,
      gens_Gi = [Point 5, Point 7, Point 11, Point 13],
      gens_Hi = [Point 17, Point 19, Point 23, Point 29]\<rparr>"

definition example_arith :: "nat list \<Rightarrow> (int, point) arith" where
  "example_arith zero_at = mod_arith 101 example_gens (count_hash 101 zero_at)"

definition zero_arith :: "(int, point) arith" where
  "zero_arith = mod_arith 101 example_gens (\<lambda>transcript. 0)"

text \<open>
  The order of the scalar field of the curve BLS12-381, for examples that pack a
  message next to a 64-bit value.
\<close>

definition r_bls :: int where
  "r_bls = 52435875175126190479447740508185965837690552500527637822603658699938581184513"

definition bls_arith :: "(int, point) arith" where
  "bls_arith = mod_arith r_bls example_gens (count_hash r_bls [])"

text \<open>The eleven bytes of \<open>hello world\<close>.\<close>

definition hello_world :: "byte list" where
  "hello_world = [104, 101, 108, 108, 111, 32, 119, 111, 114, 108, 100]"

text \<open>A message of 25 bytes whose 24th byte is 0.\<close>

definition msg24 :: "byte list" where
  "msg24 = [97, 98, 99, 100, 101, 102, 103, 104, 105, 106, 107, 108, 109, 110, 111, 112,
            113, 114, 115, 116, 117, 118, 119, 0, 120]"

text \<open>
  What a proof of the single value \<open>v\<close> hands to recovery, by the formulas of
  \<open>Prove\<close> for the challenges \<open>x\<close> and \<open>z\<close>: \<open>mu\<close> (lines 189 to 198 and 298)
  and \<open>tau_x\<close> (lines 259 to 268 and 297; of the powers of \<open>z\<close> only the first
  meets the one \<open>gamma\<close>).  The value commitment \<open>V0\<close> is an argument; \<open>Ls\<close> and
  \<open>Rs\<close> hold six points each.
\<close>

definition exported_fields ::
  "(int, point) arith \<Rightarrow> Config \<Rightarrow> point \<Rightarrow> byte list \<Rightarrow> int \<Rightarrow> int \<Rightarrow> int \<Rightarrow> point \<Rightarrow>
   (int, point) TxInToRecover" where
  "exported_fields ar cfg nonce message v x z V0 =
     (let gamma0 = GetHashWithSalt ar nonce 100;
          msg1_scalar = Scalar_vch ar
            (if length message > 23 then take 23 message else message);
          msg1_v0 = s_or ar (s_shl ar msg1_scalar (m_input_value_bits cfg)) v;
          alpha = s_add ar (GetHashWithSalt ar nonce 1) msg1_v0;
          rho = GetHashWithSalt ar nonce 2;
          msg2_scalar = Scalar_vch ar
            (if length message > 23 then drop 23 message else []);
          tau1 = s_add ar (GetHashWithSalt ar nonce 3) msg2_scalar;
          tau2 = GetHashWithSalt ar nonce 4
      in \<lparr>tx_index = 0, tx_Vs = [V0],
          tx_Ls = replicate 6 (Point 1), tx_Rs = replicate 6 (Point 1),
          tx_mu = s_add ar alpha (s_mul ar rho x),
          tx_tau_x =
            s_add ar (s_add ar (s_mul ar tau2 (Square ar x)) (s_mul ar tau1 x))
              (Scalars_Sum ar (Scalars_mul ar (FirstNPow ar z 1 2) [gamma0])),
          tx_x = x, tx_z = z, tx_nonce = nonce\<rparr>)"

text \<open>
  The commitment to the first value as \<open>Prove\<close> forms it at line 152, and as
  \<open>RecoverTxIns\<close> forms it at line 547.
\<close>

definition prover_commitment :: "(int, point) arith \<Rightarrow> point \<Rightarrow> int \<Rightarrow> point" where
  "prover_commitment ar nonce v =
     g_add ar (g_mul ar (gens_H (GetInstance ar 0)) (GetHashWithSalt ar nonce 100))
              (g_mul ar (gens_G (GetInstance ar 0)) v)"

definition recovery_commitment :: "(int, point) arith \<Rightarrow> point \<Rightarrow> int \<Rightarrow> point" where
  "recovery_commitment ar nonce v =
     g_add ar (g_mul ar (gens_G (GetInstance ar 0)) (GetHashWithSalt ar nonce 100))
              (g_mul ar (gens_H (GetInstance ar 0)) v)"

text \<open>A proof that has \<open>nV\<close> value commitments, \<open>nL\<close> entries in \<open>Ls\<close> and \<open>nR\<close> in \<open>Rs\<close>.\<close>

definition shaped_proof :: "nat \<Rightarrow> nat \<Rightarrow> nat \<Rightarrow> (int, point) Proof" where
  "shaped_proof nV nL nR =
     (empty_Proof bls_arith)\<lparr>proof_Vs := replicate nV (Point 1),
        proof_Ls := replicate nL (Point 1), proof_Rs := replicate nR (Point 1)\<rparr>"

text \<open>
  The three transcript events of one round of the inner-product argument, read off a
  proof: \<open>Ls[i]\<close>, \<open>Rs[i]\<close>, then the derivation of the round's challenge.
\<close>

definition round_events :: "('s, 'g) Proof \<Rightarrow> nat \<Rightarrow> ('s, 'g) event list" where
  "round_events p i = [AppendG (proof_Ls p ! i), AppendG (proof_Rs p ! i), GetHashCall]"

section \<open>Properties\<close>

subsection \<open>Rounds\<close>

lemma log2_halve: "1 < n \<Longrightarrow> log2 n = Suc (log2 (n div 2))"
  by (subst log2.simps) simp

lemma log2_small: "n \<le> 1 \<Longrightarrow> log2 n = 0"
  by (subst log2.simps) simp


subsection \<open>The inner-product argument and one pass of the prover\<close>

lemma IPA_loop_effect:
  assumes "IPA_loop ar gens x_ip sf g h a b n round xs proof tr = Inr (ok, p', tr')"
    and "round \<le> length (proof_Ls proof)" and "round \<le> length (proof_Rs proof)"
  shows "\<exists>Ls' Rs' a' b'.
           p' = proof\<lparr>proof_Ls := proof_Ls proof @ Ls', proof_Rs := proof_Rs proof @ Rs',
                       proof_a := a', proof_b := b'\<rparr> \<and>
           length Ls' = length Rs' \<and> length Ls' \<le> log2 n \<and>
           (ok \<longrightarrow> length Ls' = log2 n) \<and> (\<not> ok \<longrightarrow> 1 \<le> length Ls') \<and>
           tr' = tr @ concat (map (round_events p') [round..<round + length Ls'])"
  using assms
proof (induction n arbitrary: g h a b round xs "proof" tr rule: less_induct)
  case (less n)
  show ?case
  proof (cases "1 < n")
    case False
    then have n: "log2 n = 0" by (simp add: log2_small)
    from less.prems(1) False obtain a0 b0 where
      "p' = proof\<lparr>proof_a := a0, proof_b := b0\<rparr>" "ok" "tr' = tr"
      by (subst (asm) IPA_loop.simps) (auto split: sum.splits)
    then show ?thesis
      using n by (intro exI [of _ "[]"] exI [of _ a0] exI [of _ b0]) simp
  next
    case True
    define L where "L = round_L ar gens x_ip sf g h a b (n div 2) round"
    define R where "R = round_R ar gens x_ip sf g h a b (n div 2) round"
    define proof1 where "proof1 = proof\<lparr>proof_Ls := proof_Ls proof @ [L], proof_Rs := proof_Rs proof @ [R]\<rparr>"
    define tr1 where "tr1 = tr @ [AppendG (proof_Ls proof1 ! round), AppendG (proof_Rs proof1 ! round), GetHashCall]"
    define x where "x = GetHash ar (tr @ [AppendG (proof_Ls proof1 ! round), AppendG (proof_Rs proof1 ! round)])"
    have ln: "log2 n = Suc (log2 (n div 2))" using True by (rule log2_halve)
    have r1: "round < length (proof_Ls proof1)" "round < length (proof_Rs proof1)"
      using less.prems(2,3) by (simp_all add: proof1_def)
    show ?thesis
    proof (cases "x = Scalar_int ar 0")
      case zero: True
      from less.prems(1) True zero have res: "p' = proof1" "\<not> ok" "tr' = tr1"
        by (subst (asm) IPA_loop.simps; simp add: Let_def proof1_def tr1_def x_def L_def R_def)+
      show ?thesis
        apply (rule exI [of _ "[L]"], rule exI [of _ "[R]"], rule exI [of _ "proof_a proof"],
            rule exI [of _ "proof_b proof"])
        apply (simp add: res ln proof1_def tr1_def round_events_def)
        done
    next
      case nz: False
      from less.prems(1) True nz obtain g' h' a1 b1 xs' where
        rec: "IPA_loop ar gens x_ip sf g' h' a1 b1 (n div 2) (round + 1) xs' proof1 tr1
              = Inr (ok, p', tr')"
        by (subst (asm) IPA_loop.simps) (simp add: Let_def proof1_def tr1_def x_def L_def R_def)
      have "n div 2 < n" using True by simp
      have r1': "round + 1 \<le> length (proof_Ls proof1)" "round + 1 \<le> length (proof_Rs proof1)"
        using r1 by simp_all
      have "\<exists>Ls' Rs' a' b'.
           p' = proof1\<lparr>proof_Ls := proof_Ls proof1 @ Ls', proof_Rs := proof_Rs proof1 @ Rs',
                       proof_a := a', proof_b := b'\<rparr> \<and>
           length Ls' = length Rs' \<and> length Ls' \<le> log2 (n div 2) \<and>
           (ok \<longrightarrow> length Ls' = log2 (n div 2)) \<and> (\<not> ok \<longrightarrow> 1 \<le> length Ls') \<and>
           tr' = tr1 @ concat (map (round_events p') [round + 1..<round + 1 + length Ls'])"
        by (rule less.IH [OF \<open>n div 2 < n\<close> rec r1'])
      then obtain Ls' Rs' a' b' where
        p': "p' = proof1\<lparr>proof_Ls := proof_Ls proof1 @ Ls', proof_Rs := proof_Rs proof1 @ Rs',
                       proof_a := a', proof_b := b'\<rparr>"
        and len: "length Ls' = length Rs'" "length Ls' \<le> log2 (n div 2)"
           "ok \<longrightarrow> length Ls' = log2 (n div 2)"
        and tr': "tr' = tr1 @ concat (map (round_events p') [round + 1..<round + 1 + length Ls'])"
        by blast
      have ev: "round_events p' round =
          [AppendG (proof_Ls proof1 ! round), AppendG (proof_Rs proof1 ! round), GetHashCall]"
        using r1 by (simp add: round_events_def p' nth_append)
      have upt: "[round..<round + length (L # Ls')] = round # [round + 1..<round + 1 + length Ls']"
      proof -
        have "round < round + length (L # Ls')" by simp
        then have "[round..<round + length (L # Ls')] =
                   round # [Suc round..<round + length (L # Ls')]"
          by (rule upt_conv_Cons)
        then show ?thesis by simp
      qed
      show ?thesis
      proof (rule exI [of _ "L # Ls'"], rule exI [of _ "R # Rs'"], rule exI [of _ a'],
             rule exI [of _ b'], intro conjI)
        show "p' = proof\<lparr>proof_Ls := proof_Ls proof @ L # Ls',
                proof_Rs := proof_Rs proof @ R # Rs', proof_a := a', proof_b := b'\<rparr>"
          by (simp add: p' proof1_def)
        show "length (L # Ls') = length (R # Rs')" using len by simp
        show "length (L # Ls') \<le> log2 n" using len ln by simp
        show "ok \<longrightarrow> length (L # Ls') = log2 n" using len ln by simp
        show "\<not> ok \<longrightarrow> 1 \<le> length (L # Ls')" by simp
        show "tr' = tr @ concat (map (round_events p') [round..<round + length (L # Ls')])"
          by (simp only: upt) (simp add: tr' tr1_def ev)
      qed
    qed
  qed
qed


lemma IPA_loop_error:
  "IPA_loop ar gens x_ip sf g h a b n round xs proof tr = Inl e \<Longrightarrow> e = IndexOutOfRange"
proof (induction n arbitrary: g h a b round xs "proof" tr rule: less_induct)
  case (less n)
  show ?case
  proof (cases "1 < n")
    case False
    with less.prems show ?thesis
      by (subst (asm) IPA_loop.simps) (auto simp: elem0_def split: sum.splits list.splits)
  next
    case True
    then have "n div 2 < n" by simp
    from less.prems True obtain g' h' a1 b1 round' xs' proof1 tr1 where
      "IPA_loop ar gens x_ip sf g' h' a1 b1 (n div 2) round' xs' proof1 tr1 = Inl e"
      by (subst (asm) IPA_loop.simps) (auto simp: Let_def split: if_splits)
    with less.IH [OF \<open>n div 2 < n\<close>] show ?thesis by blast
  qed
qed

lemma InnerProductArgument_effect:
  assumes "InnerProductArgument ar n gens x_ip l r y proof tr = Inr (ok, p', tr')"
  shows "\<exists>Ls' Rs' a' b'.
           p' = proof\<lparr>proof_Ls := proof_Ls proof @ Ls', proof_Rs := proof_Rs proof @ Rs',
                       proof_a := a', proof_b := b'\<rparr> \<and>
           length Ls' = length Rs' \<and> length Ls' \<le> log2 n \<and>
           (ok \<longrightarrow> length Ls' = log2 n) \<and> (\<not> ok \<longrightarrow> 1 \<le> length Ls') \<and>
           tr' = tr @ concat (map (round_events p') [0..<length Ls'])"
  using IPA_loop_effect [of ar gens x_ip _ _ _ _ _ n 0 _ "proof" tr ok p' tr'] assms
  by (simp add: InnerProductArgument_def)

lemma InnerProductArgument_error:
  "InnerProductArgument ar n gens x_ip l r y proof tr = Inl e \<Longrightarrow> e = IndexOutOfRange"
  by (auto simp: InnerProductArgument_def dest: IPA_loop_error)


lemma attempt_Thrown:
  assumes "attempt ar cfg gens vs nonce message gammas aL aR c proof tr rc = Thrown e tr'"
  shows "e = Equality60 \<or> e = IndexOutOfRange"
  using assms
  by (auto simp: attempt_def Let_def split: if_splits sum.splits prod.splits
        dest: InnerProductArgument_error)

lemma attempt_all_zero:
  assumes "\<forall>t. GetHash ar t = Scalar_int ar 0"
  shows "\<exists>p' A' S'. attempt ar cfg gens vs nonce message gammas aL aR c proof tr rc =
           Retry p' (tr @ [AppendG A', AppendG S', GetHashCall]) (rc + 2 * m_input_value_bits cfg)"
  using assms by (simp add: attempt_def Let_def split: prod.splits)


lemma attempt_Done:
  assumes "attempt ar cfg gens vs nonce message gammas aL aR c proof tr rc = Done p' tr'"
  shows "\<exists>y z x Ls' Rs'.
     y = GetHash ar (tr @ [AppendG (proof_A p'), AppendG (proof_S p')]) \<and>
     z = GetHash ar (tr @ [AppendG (proof_A p'), AppendG (proof_S p'), GetHashCall, AppendS y]) \<and>
     x = GetHash ar (tr @ [AppendG (proof_A p'), AppendG (proof_S p'), GetHashCall, AppendS y,
            GetHashCall, AppendS z, AppendG (proof_T1 p'), AppendG (proof_T2 p')]) \<and>
     proof_Vs p' = proof_Vs proof \<and> proof_t p' = proof_t proof \<and>
     proof_Ls p' = proof_Ls proof @ Ls' \<and> proof_Rs p' = proof_Rs proof @ Rs' \<and>
     length Ls' = log2 c \<and> length Rs' = log2 c \<and>
     tr' = tr @ [AppendG (proof_A p'), AppendG (proof_S p'), GetHashCall, AppendS y,
                 GetHashCall, AppendS z, AppendG (proof_T1 p'), AppendG (proof_T2 p'),
                 GetHashCall, AppendS x, AppendS (proof_tau_x p'), AppendS (proof_mu p'),
                 AppendS (proof_t p'), GetHashCall] @
           concat (map (round_events p') [0..<log2 c])"
  using assms
  apply (simp add: attempt_def Let_def split: if_splits sum.splits prod.splits)
  apply (drule InnerProductArgument_effect)
  apply (elim exE conjE)
  apply simp
  done

lemma attempt_Retry:
  assumes "attempt ar cfg gens vs nonce message gammas aL aR c proof tr rc = Retry p' tr' rc'"
  shows "\<exists>Ls' Rs'. proof_Vs p' = proof_Vs proof \<and> proof_t p' = proof_t proof \<and>
     proof_Ls p' = proof_Ls proof @ Ls' \<and> proof_Rs p' = proof_Rs proof @ Rs' \<and>
     length Ls' = length Rs' \<and> length Ls' \<le> log2 c"
  using assms
  by (auto simp: attempt_def Let_def split: if_splits sum.splits prod.splits
        dest!: InnerProductArgument_effect)


lemma try_again_counter:
  assumes "try_again ar cfg gens vs nonce message gammas aL aR c num_tries proof tr rc
             = (res, tr', n)"
  shows "num_tries < n \<and> (num_tries \<le> m_max_prove_tries cfg \<longrightarrow> n \<le> Suc (m_max_prove_tries cfg))
         \<and> (num_tries \<le> m_max_prove_tries cfg \<and> res \<noteq> Inl ExceededTries \<longrightarrow> n \<le> m_max_prove_tries cfg)"
  using assms
proof (induction ar cfg gens vs nonce message gammas aL aR c num_tries "proof" tr rc
        rule: try_again.induct)
  case (1 ar cfg gens vs nonce message gammas aL aR c num_tries pf tr rc)
  show ?case
  proof (cases "num_tries + 1 > m_max_prove_tries cfg")
    case True
    with "1.prems" show ?thesis
      by (subst (asm) try_again.simps) (auto simp: Let_def)
  next
    case False
    show ?thesis
    proof (cases "attempt ar cfg gens vs nonce message gammas aL aR c pf tr rc")
      case (Retry p1 t1 rc1)
      with "1.prems" False have
        "try_again ar cfg gens vs nonce message gammas aL aR c (num_tries + 1) p1 t1 rc1
           = (res, tr', n)"
        by (subst (asm) try_again.simps) (simp add: Let_def)
      from "1.IH" [OF refl False Retry this] False show ?thesis by auto
    next
      case (Done p1 t1)
      with "1.prems" False show ?thesis
        by (subst (asm) try_again.simps) (auto simp: Let_def)
    next
      case (Thrown e t1)
      with "1.prems" False show ?thesis
        by (subst (asm) try_again.simps) (auto simp: Let_def)
    qed
  qed
qed

lemma try_again_errors:
  assumes "try_again ar cfg gens vs nonce message gammas aL aR c num_tries proof tr rc
             = (Inl e, tr', n)"
  shows "e = ExceededTries \<or> e = Equality60 \<or> e = IndexOutOfRange"
  using assms
proof (induction ar cfg gens vs nonce message gammas aL aR c num_tries "proof" tr rc
        rule: try_again.induct)
  case (1 ar cfg gens vs nonce message gammas aL aR c num_tries pf tr rc)
  show ?case
  proof (cases "num_tries + 1 > m_max_prove_tries cfg")
    case True
    with "1.prems" show ?thesis
      by (subst (asm) try_again.simps) (auto simp: Let_def)
  next
    case False
    show ?thesis
    proof (cases "attempt ar cfg gens vs nonce message gammas aL aR c pf tr rc")
      case (Retry p1 t1 rc1)
      with "1.prems" False have
        "try_again ar cfg gens vs nonce message gammas aL aR c (num_tries + 1) p1 t1 rc1
           = (Inl e, tr', n)"
        by (subst (asm) try_again.simps) (simp add: Let_def)
      from "1.IH" [OF refl False Retry this] show ?thesis .
    next
      case (Done p1 t1)
      with "1.prems" False show ?thesis
        by (subst (asm) try_again.simps) (auto simp: Let_def)
    next
      case (Thrown e1 t1)
      with "1.prems" False have "e = e1"
        by (subst (asm) try_again.simps) (auto simp: Let_def)
      moreover from Thrown have "e1 = Equality60 \<or> e1 = IndexOutOfRange"
        by (rule attempt_Thrown)
      ultimately show ?thesis by simp
    qed
  qed
qed

lemma try_again_first_pass:
  assumes "try_again ar cfg gens vs nonce message gammas aL aR c num_tries proof tr rc
             = (Inr p, tr', Suc num_tries)"
  shows "attempt ar cfg gens vs nonce message gammas aL aR c proof tr rc = Done p tr'"
proof (cases "num_tries + 1 > m_max_prove_tries cfg")
  case True
  with assms show ?thesis
    by (subst (asm) try_again.simps) (auto simp: Let_def)
next
  case False
  show ?thesis
  proof (cases "attempt ar cfg gens vs nonce message gammas aL aR c proof tr rc")
    case (Retry p1 t1 rc1)
    with assms False have
      "try_again ar cfg gens vs nonce message gammas aL aR c (num_tries + 1) p1 t1 rc1
         = (Inr p, tr', Suc num_tries)"
      by (subst (asm) try_again.simps) (simp add: Let_def)
    from try_again_counter [OF this] show ?thesis by simp
  next
    case (Done p1 t1)
    with assms False show ?thesis
      by (subst (asm) try_again.simps) (auto simp: Let_def)
  next
    case (Thrown e1 t1)
    with assms False show ?thesis
      by (subst (asm) try_again.simps) (auto simp: Let_def)
  qed
qed

lemma try_again_all_zero:
  assumes zero: "\<forall>t. GetHash ar t = Scalar_int ar 0"
    and "num_tries \<le> m_max_prove_tries cfg"
  shows "\<exists>tr'. try_again ar cfg gens vs nonce message gammas aL aR c num_tries proof tr rc
                 = (Inl ExceededTries, tr', Suc (m_max_prove_tries cfg)) \<and>
               length (filter (\<lambda>e. e = GetHashCall) tr') =
                 length (filter (\<lambda>e. e = GetHashCall) tr) + (m_max_prove_tries cfg - num_tries)"
  using assms(2)
proof (induction "m_max_prove_tries cfg - num_tries" arbitrary: num_tries "proof" tr rc)
  case 0
  then have "num_tries = m_max_prove_tries cfg" by simp
  then show ?case
    by (subst try_again.simps) (simp add: Let_def)
next
  case (Suc k)
  then have lt: "\<not> num_tries + 1 > m_max_prove_tries cfg" by simp
  obtain p1 A1 S1 where att:
    "attempt ar cfg gens vs nonce message gammas aL aR c proof tr rc =
       Retry p1 (tr @ [AppendG A1, AppendG S1, GetHashCall]) (rc + 2 * m_input_value_bits cfg)"
    using attempt_all_zero [OF zero] by blast
  have k: "k = m_max_prove_tries cfg - (num_tries + 1)" using Suc.hyps(2) by simp
  have le: "num_tries + 1 \<le> m_max_prove_tries cfg" using lt by simp
  from Suc.hyps(1) [OF k le] obtain tr' where
    rec: "try_again ar cfg gens vs nonce message gammas aL aR c (num_tries + 1) p1
            (tr @ [AppendG A1, AppendG S1, GetHashCall]) (rc + 2 * m_input_value_bits cfg)
          = (Inl ExceededTries, tr', Suc (m_max_prove_tries cfg))"
    and cnt: "length (filter (\<lambda>e. e = GetHashCall) tr') =
       length (filter (\<lambda>e. e = GetHashCall) (tr @ [AppendG A1, AppendG S1, GetHashCall])) +
       (m_max_prove_tries cfg - (num_tries + 1))"
    by blast
  have "try_again ar cfg gens vs nonce message gammas aL aR c num_tries proof tr rc
          = (Inl ExceededTries, tr', Suc (m_max_prove_tries cfg))"
    using lt att rec by (subst try_again.simps) (simp add: Let_def)
  moreover have "length (filter (\<lambda>e. e = GetHashCall) tr') =
       length (filter (\<lambda>e. e = GetHashCall) tr) + (m_max_prove_tries cfg - num_tries)"
    using cnt le by simp
  ultimately show ?case by blast
qed



subsection \<open>Recovery\<close>

lemma trim_loop_taking: "trim_loop True vch acc = acc @ vch"
  by (induction vch arbitrary: acc) simp_all

lemma trim_loop_dropWhile: "trim_loop False vch [] = dropWhile (\<lambda>c. c = 0) vch"
  by (induction vch) (simp_all add: trim_loop_taking)

lemma GetTrimmedVch_dropWhile: "GetTrimmedVch ar s = dropWhile (\<lambda>c. c = 0) (GetVch ar s)"
  by (simp add: GetTrimmedVch_def trim_loop_dropWhile)

lemma GetTrimmedVch_no_leading_zero: "GetTrimmedVch ar s \<noteq> 0 # cs"
proof
  assume "GetTrimmedVch ar s = 0 # cs"
  then have "dropWhile (\<lambda>c. c = 0) (GetVch ar s) = 0 # cs"
    by (simp add: GetTrimmedVch_dropWhile)
  then show False
    using hd_dropWhile [of "\<lambda>c. c = 0" "GetVch ar s"] by auto
qed

lemma RecoverTxIns_loop_map_filter:
  "RecoverTxIns_loop ar gens tx_ins acc = acc @ List.map_filter (recover_one ar gens) tx_ins"
  by (induction tx_ins arbitrary: acc) (simp_all add: List.map_filter_simps split: option.splits)

lemma RecoverTxIns_map_filter:
  "RecoverTxIns ar tx_ins token_id = List.map_filter (recover_one ar (GetInstance ar token_id)) tx_ins"
  by (simp add: RecoverTxIns_def RecoverTxIns_loop_map_filter)

lemma RecoverTxIns_entry:
  assumes "e \<in> set (RecoverTxIns ar tx_ins token_id)"
  shows "\<exists>tx_in \<in> set tx_ins. recover_one ar (GetInstance ar token_id) tx_in = Some e"
  using assms by (auto simp: RecoverTxIns_map_filter List.map_filter_def)

lemma recover_one_message:
  assumes "recover_one ar gens tx_in = Some e"
  shows "rec_message e = GetTrimmedVch ar (s_shr ar (message_v0 ar tx_in) 64) @
                         GetTrimmedVch ar (msg2_scalar ar tx_in)"
  using assms by (auto simp: recover_one_def Let_def split: if_splits)

lemma chunks_not_zero_first:
  assumes "m \<noteq> []" "hd m = 0"
  shows "GetTrimmedVch ar s1 @ GetTrimmedVch ar s2 \<noteq> m"
proof
  assume eq: "GetTrimmedVch ar s1 @ GetTrimmedVch ar s2 = m"
  obtain cs where m: "m = 0 # cs" using assms by (cases m) auto
  show False
  proof (cases "GetTrimmedVch ar s1")
    case Nil
    with eq m show False using GetTrimmedVch_no_leading_zero [of ar s2 cs] by simp
  next
    case (Cons c cs')
    with eq m have "GetTrimmedVch ar s1 = 0 # cs'" by simp
    then show False by (simp add: GetTrimmedVch_no_leading_zero)
  qed
qed

lemma chunks_not_zero_24th:
  assumes "length (GetTrimmedVch ar s1) = 23" "23 < length m" "m ! 23 = 0"
  shows "GetTrimmedVch ar s1 @ GetTrimmedVch ar s2 \<noteq> m"
proof
  assume eq: "GetTrimmedVch ar s1 @ GetTrimmedVch ar s2 = m"
  then have "GetTrimmedVch ar s2 = drop 23 m"
    using assms(1) by (metis append_eq_conv_conj)
  moreover have "drop 23 m = m ! 23 # drop 24 m"
    using assms(2) Cons_nth_drop_Suc [of 23 m] by simp
  ultimately have "GetTrimmedVch ar s2 = 0 # drop 24 m" using assms(3) by simp
  then show False by (simp add: GetTrimmedVch_no_leading_zero)
qed

text \<open>
  Claim C10.  \<open>GetTrimmedVch s\<close> is the serialization of \<open>s\<close> without its leading
  zero bytes, so it never begins with the byte 0.  Every entry that \<open>RecoverTxIns\<close>
  returns carries the two chunks built through \<open>GetTrimmedVch\<close>, from
  \<open>message_v0 >> 64\<close> and from the \<open>tau_x\<close> equation.  Hence a recovered message is
  never equal to a message whose first byte is 0, nor, when the first chunk has its 23
  bytes, to a message whose 24th byte is 0.
\<close>

theorem recovered_chunks_have_no_leading_zero:
  "GetTrimmedVch ar s = dropWhile (\<lambda>c. c = 0) (GetVch ar s) \<and>
   (\<forall>cs. GetTrimmedVch ar s \<noteq> 0 # cs) \<and>
   (\<forall>e \<in> set (RecoverTxIns ar tx_ins token_id). \<exists>tx_in \<in> set tx_ins.
      rec_message e = GetTrimmedVch ar (s_shr ar (message_v0 ar tx_in) 64) @
                      GetTrimmedVch ar (msg2_scalar ar tx_in) \<and>
      (\<forall>m. m \<noteq> [] \<and> hd m = 0 \<longrightarrow> rec_message e \<noteq> m) \<and>
      (\<forall>m. length (GetTrimmedVch ar (s_shr ar (message_v0 ar tx_in) 64)) = 23 \<and>
           23 < length m \<and> m ! 23 = 0 \<longrightarrow> rec_message e \<noteq> m))"
proof (intro conjI ballI allI)
  show "GetTrimmedVch ar s = dropWhile (\<lambda>c. c = 0) (GetVch ar s)"
    by (rule GetTrimmedVch_dropWhile)
next
  fix cs show "GetTrimmedVch ar s \<noteq> 0 # cs" by (rule GetTrimmedVch_no_leading_zero)
next
  fix e assume "e \<in> set (RecoverTxIns ar tx_ins token_id)"
  then obtain tx_in where tx: "tx_in \<in> set tx_ins"
    and rec: "recover_one ar (GetInstance ar token_id) tx_in = Some e"
    using RecoverTxIns_entry by blast
  have msg: "rec_message e = GetTrimmedVch ar (s_shr ar (message_v0 ar tx_in) 64) @
                         GetTrimmedVch ar (msg2_scalar ar tx_in)"
    using rec by (rule recover_one_message)
  show "\<exists>tx_in \<in> set tx_ins.
      rec_message e = GetTrimmedVch ar (s_shr ar (message_v0 ar tx_in) 64) @
                      GetTrimmedVch ar (msg2_scalar ar tx_in) \<and>
      (\<forall>m. m \<noteq> [] \<and> hd m = 0 \<longrightarrow> rec_message e \<noteq> m) \<and>
      (\<forall>m. length (GetTrimmedVch ar (s_shr ar (message_v0 ar tx_in) 64)) = 23 \<and>
           23 < length m \<and> m ! 23 = 0 \<longrightarrow> rec_message e \<noteq> m)"
  proof (intro bexI [of _ tx_in] conjI allI impI)
    show "rec_message e = GetTrimmedVch ar (s_shr ar (message_v0 ar tx_in) 64) @
                      GetTrimmedVch ar (msg2_scalar ar tx_in)" by (rule msg)
  next
    fix m :: "byte list" assume "m \<noteq> [] \<and> hd m = 0"
    then show "rec_message e \<noteq> m"
      unfolding msg by (intro chunks_not_zero_first) simp_all
  next
    fix m :: "byte list"
    assume "length (GetTrimmedVch ar (s_shr ar (message_v0 ar tx_in) 64)) = 23 \<and>
           23 < length m \<and> m ! 23 = 0"
    then show "rec_message e \<noteq> m"
      unfolding msg by (intro chunks_not_zero_24th) simp_all
  next
    show "tx_in \<in> set tx_ins" by (rule tx)
  qed
qed



lemma singleton_map:
  assumes "map f xs = [y]"
  obtains x where "xs = [x]" "f x = y"
  using assms by (cases xs) auto

theorem recovered_chunks_witness:
  "(\<exists>e. RecoverTxIns bls_arith
          [exported_fields bls_arith config_64 (Point 9) [0, 104, 105] 100 10 6
             (recovery_commitment bls_arith (Point 9) 100)] 0 = [e] \<and>
        rec_message e = [104, 105] \<and> rec_message e \<noteq> [0, 104, 105]) \<and>
   (\<exists>e. RecoverTxIns bls_arith
          [exported_fields bls_arith config_64 (Point 9) msg24 100 10 6
             (recovery_commitment bls_arith (Point 9) 100)] 0 = [e] \<and>
        rec_message e = take 23 msg24 @ [120] \<and> rec_message e \<noteq> msg24)"
proof (intro conjI)
  let ?tx = "exported_fields bls_arith config_64 (Point 9) [0, 104, 105] 100 10 6
             (recovery_commitment bls_arith (Point 9) 100)"
  have "map rec_message (RecoverTxIns bls_arith [?tx] 0) = [[104, 105]]"
    by code_simp
  then obtain e where e: "RecoverTxIns bls_arith [?tx] 0 = [e]" "rec_message e = [104, 105]"
    by (rule singleton_map)
  have mem: "e \<in> set (RecoverTxIns bls_arith [?tx] 0)" using e(1) by simp
  from recovered_chunks_have_no_leading_zero
         [of bls_arith 0 "[?tx]" 0, THEN conjunct2, THEN conjunct2, THEN bspec, OF mem]
  have "\<forall>m. m \<noteq> [] \<and> hd m = 0 \<longrightarrow> rec_message e \<noteq> m" by blast
  then have "rec_message e \<noteq> [0, 104, 105]" by simp
  with e show "\<exists>e. RecoverTxIns bls_arith [?tx] 0 = [e] \<and>
        rec_message e = [104, 105] \<and> rec_message e \<noteq> [0, 104, 105]" by blast
next
  let ?tx = "exported_fields bls_arith config_64 (Point 9) msg24 100 10 6
             (recovery_commitment bls_arith (Point 9) 100)"
  have "map rec_message (RecoverTxIns bls_arith [?tx] 0) = [take 23 msg24 @ [120]]"
    by code_simp
  then obtain e where e: "RecoverTxIns bls_arith [?tx] 0 = [e]"
      "rec_message e = take 23 msg24 @ [120]"
    by (rule singleton_map)
  have len: "length (GetTrimmedVch bls_arith (s_shr bls_arith (message_v0 bls_arith ?tx) 64)) = 23"
    by code_simp
  have m: "23 < length msg24" "msg24 ! 23 = 0" by (simp_all add: msg24_def)
  have mem: "e \<in> set (RecoverTxIns bls_arith [?tx] 0)" using e(1) by simp
  from recovered_chunks_have_no_leading_zero
         [of bls_arith 0 "[?tx]" 0, THEN conjunct2, THEN conjunct2, THEN bspec, OF mem]
  obtain tx_in where "tx_in \<in> set [?tx]" and
    "\<forall>m. length (GetTrimmedVch bls_arith (s_shr bls_arith (message_v0 bls_arith tx_in) 64)) = 23 \<and>
           23 < length m \<and> m ! 23 = 0 \<longrightarrow> rec_message e \<noteq> m"
    by blast
  then have "\<forall>m. length (GetTrimmedVch bls_arith (s_shr bls_arith (message_v0 bls_arith ?tx) 64)) = 23 \<and>
           23 < length m \<and> m ! 23 = 0 \<longrightarrow> rec_message e \<noteq> m"
    by simp
  with len m have "rec_message e \<noteq> msg24" by blast
  with e show "\<exists>e. RecoverTxIns bls_arith [?tx] 0 = [e] \<and>
        rec_message e = take 23 msg24 @ [120] \<and> rec_message e \<noteq> msg24" by blast
qed

lemma recover_one_None:
  assumes "tx_Vs tx_in = [] \<or> tx_Ls tx_in = [] \<or> length (tx_Ls tx_in) \<noteq> length (tx_Rs tx_in) \<or>
           input_value0_commitment ar gens tx_in \<noteq> tx_Vs tx_in ! 0"
  shows "recover_one ar gens tx_in = None"
  using assms by (auto simp: recover_one_def Let_def)

lemma recover_one_Some:
  assumes "recover_one ar gens tx_in = Some e"
  shows "rec_index e = tx_index tx_in \<and> tx_Vs tx_in \<noteq> [] \<and> tx_Ls tx_in \<noteq> [] \<and>
         length (tx_Ls tx_in) = length (tx_Rs tx_in) \<and>
         input_value0_commitment ar gens tx_in = tx_Vs tx_in ! 0"
  using assms by (auto simp: recover_one_def Let_def split: if_splits)

text \<open>
  Claim C7.  \<open>RecoverTxIns\<close> is a total function of its input list: no branch of the
  source throws.  An input whose \<open>Vs\<close> is empty, whose \<open>Ls\<close> is empty, whose \<open>Ls\<close>
  and \<open>Rs\<close> differ in size, or whose recomputed commitment differs from \<open>Vs[0]\<close>
  contributes nothing to the result, wherever it stands in the list.  Every entry of
  the result comes from an input that passed all four tests, and the result is never
  longer than the input list.
\<close>

theorem RecoverTxIns_omits_unrecoverable:
  "(tx_Vs tx_in = [] \<or> tx_Ls tx_in = [] \<or> length (tx_Ls tx_in) \<noteq> length (tx_Rs tx_in) \<or>
    input_value0_commitment ar (GetInstance ar token_id) tx_in \<noteq> tx_Vs tx_in ! 0 \<longrightarrow>
      RecoverTxIns ar (before @ tx_in # after) token_id =
      RecoverTxIns ar (before @ after) token_id) \<and>
   (\<forall>e \<in> set (RecoverTxIns ar tx_ins token_id). \<exists>tx \<in> set tx_ins.
      rec_index e = tx_index tx \<and> tx_Vs tx \<noteq> [] \<and> tx_Ls tx \<noteq> [] \<and>
      length (tx_Ls tx) = length (tx_Rs tx) \<and>
      input_value0_commitment ar (GetInstance ar token_id) tx = tx_Vs tx ! 0) \<and>
   length (RecoverTxIns ar tx_ins token_id) \<le> length tx_ins"
proof (intro conjI impI ballI)
  assume "tx_Vs tx_in = [] \<or> tx_Ls tx_in = [] \<or> length (tx_Ls tx_in) \<noteq> length (tx_Rs tx_in) \<or>
    input_value0_commitment ar (GetInstance ar token_id) tx_in \<noteq> tx_Vs tx_in ! 0"
  then have "recover_one ar (GetInstance ar token_id) tx_in = None"
    by (rule recover_one_None)
  then show "RecoverTxIns ar (before @ tx_in # after) token_id =
      RecoverTxIns ar (before @ after) token_id"
    by (simp add: RecoverTxIns_map_filter List.map_filter_def)
next
  fix e assume "e \<in> set (RecoverTxIns ar tx_ins token_id)"
  then obtain tx where "tx \<in> set tx_ins"
    and "recover_one ar (GetInstance ar token_id) tx = Some e"
    using RecoverTxIns_entry by blast
  then show "\<exists>tx \<in> set tx_ins.
      rec_index e = tx_index tx \<and> tx_Vs tx \<noteq> [] \<and> tx_Ls tx \<noteq> [] \<and>
      length (tx_Ls tx) = length (tx_Rs tx) \<and>
      input_value0_commitment ar (GetInstance ar token_id) tx = tx_Vs tx ! 0"
    using recover_one_Some by blast
next
  show "length (RecoverTxIns ar tx_ins token_id) \<le> length tx_ins"
    by (simp add: RecoverTxIns_map_filter List.map_filter_def)
qed

theorem RecoverTxIns_omits_witness:
  "RecoverTxIns bls_arith
     ([exported_fields bls_arith config_64 (Point 9) hello_world 100 10 6
         (recovery_commitment bls_arith (Point 9) 100)] @
      exported_fields bls_arith config_64 (Point 8) hello_world 100 10 6
         (recovery_commitment bls_arith (Point 9) 100) # []) 0 =
   RecoverTxIns bls_arith
     ([exported_fields bls_arith config_64 (Point 9) hello_world 100 10 6
         (recovery_commitment bls_arith (Point 9) 100)] @ []) 0 \<and>
   map (\<lambda>e. (rec_index e, rec_amount e, rec_message e))
     (RecoverTxIns bls_arith
       [exported_fields bls_arith config_64 (Point 9) hello_world 100 10 6
         (recovery_commitment bls_arith (Point 9) 100)] 0) = [(0, 100, hello_world)]"
proof (intro conjI)
  let ?good = "exported_fields bls_arith config_64 (Point 9) hello_world 100 10 6
         (recovery_commitment bls_arith (Point 9) 100)"
  let ?bad = "exported_fields bls_arith config_64 (Point 8) hello_world 100 10 6
         (recovery_commitment bls_arith (Point 9) 100)"
  have "input_value0_commitment bls_arith (GetInstance bls_arith 0) ?bad \<noteq> tx_Vs ?bad ! 0"
    by code_simp
  then show "RecoverTxIns bls_arith ([?good] @ ?bad # []) 0 =
             RecoverTxIns bls_arith ([?good] @ []) 0"
    using RecoverTxIns_omits_unrecoverable [of ?bad bls_arith 0 "[?good]" "[]" "[]"] by blast
next
  show "map (\<lambda>e. (rec_index e, rec_amount e, rec_message e))
     (RecoverTxIns bls_arith
       [exported_fields bls_arith config_64 (Point 9) hello_world 100 10 6
         (recovery_commitment bls_arith (Point 9) 100)] 0) = [(0, 100, hello_world)]"
    by code_simp
qed

subsection \<open>The bit vector\<close>

lemma value_bits_length:
  assumes "length (GetBits ar v) \<le> m_input_value_bits cfg" and "m_input_value_bits cfg < 2 ^ 64"
  shows "length (value_bits ar cfg v) = m_input_value_bits cfg"
proof -
  let ?d = "int (m_input_value_bits cfg) - int (length (GetBits ar v))"
  have "0 \<le> ?d" "?d < 2 ^ 64" using assms by simp_all
  then have "?d mod 2 ^ 64 = ?d" by simp
  then show ?thesis using assms(1) by (simp add: value_bits_def Let_def)
qed

lemma flatten_loop_length:
  assumes "\<forall>v \<in> set vs. length (GetBits ar v) \<le> m_input_value_bits cfg"
    and "m_input_value_bits cfg < 2 ^ 64"
  shows "length (foldl (\<lambda>aL v. aL @ value_bits ar cfg v) acc vs) =
         length acc + length vs * m_input_value_bits cfg"
  using assms(1)
proof (induction vs arbitrary: acc)
  case Nil
  then show ?case by simp
next
  case (Cons v vs)
  then show ?case by (simp add: value_bits_length [OF _ assms(2)])
qed

text \<open>
  The vector \<open>aL\<close> that \<open>Prove\<close> builds has one block of
  \<open>Config::m_input_value_bits\<close> entries for each value it was given, and nothing for
  the values that round the count up to a power of two.
\<close>

lemma flatten_aL_length:
  assumes "\<forall>v \<in> set vs. length (GetBits ar v) \<le> m_input_value_bits cfg"
    and "m_input_value_bits cfg < 2 ^ 64"
  shows "length (flatten_aL ar cfg vs) = length vs * m_input_value_bits cfg"
  using flatten_loop_length [OF assms, of "[]"] by (simp add: flatten_aL_def)

text \<open>
  Claim C8, at a failing input.  For three values of 64 bits the claim asks for
  \<open>4 * 64 = 256\<close> entries; the loop of lines 159 to 169 gives \<open>3 * 64 = 192\<close>, and
  the source leaves the rest to a TODO comment.
\<close>

theorem aL_is_not_padded_to_the_rounded_count:
  "length (flatten_aL bls_arith config_64 [1, 2, 3]) = 192 \<and>
   GetFirstPowerOf2GreaterOrEqTo (length [1, 2, 3 :: int]) * m_input_value_bits config_64 = 256"
  by code_simp

subsection \<open>The prover's checks and its retry loop\<close>

lemma map_nth_all: "length xs = n \<Longrightarrow> map (\<lambda>i. f (xs ! i)) [0..<n] = map f xs"
proof -
  assume n: "length xs = n"
  have "map f xs = map f (map ((!) xs) [0..<length xs])" by (simp only: map_nth)
  also have "\<dots> = map (\<lambda>i. f (xs ! i)) [0..<length xs]" by (simp add: comp_def)
  finally show ?thesis using n by simp
qed

lemma Prove_run_valid:
  assumes "\<not> length message > m_max_message_size cfg" and "vs \<noteq> []"
    and "\<not> length vs > m_max_input_values cfg"
  shows "\<exists>gammas aR p0.
     Prove_run ar cfg vs nonce message token_id =
       try_again ar cfg (GetInstance ar token_id) vs nonce message gammas
         (flatten_aL ar cfg vs) aR
         (GetFirstPowerOf2GreaterOrEqTo (length vs) * m_input_value_bits cfg)
         0 p0 (map AppendG (proof_Vs p0)) 0 \<and>
     proof_Vs p0 =
       G1Points_add ar
         (map (g_mul ar (gens_H (GetInstance ar token_id)))
            (map (\<lambda>i. GetHashWithSalt ar nonce (100 + i)) [0..<length vs]))
         (map (g_mul ar (gens_G (GetInstance ar token_id))) vs) \<and>
     proof_Ls p0 = [] \<and> proof_Rs p0 = [] \<and> proof_t p0 = Scalar_int ar 0"
proof -
  define V where "V = G1Points_add ar
         (map (g_mul ar (gens_H (GetInstance ar token_id)))
            (map (\<lambda>i. GetHashWithSalt ar nonce (100 + i)) [0..<length vs]))
         (map (g_mul ar (gens_G (GetInstance ar token_id))) vs)"
  define p0 where "p0 = (empty_Proof ar)\<lparr>proof_Vs := V\<rparr>"
  define gammas where "gammas = map (\<lambda>i. GetHashWithSalt ar nonce (100 + i)) [0..<length vs]"
  define aR where "aR = Scalars_sub ar (flatten_aL ar cfg vs)
     (FirstNPow ar (Scalar_int ar 1)
        (GetFirstPowerOf2GreaterOrEqTo (length vs) * m_input_value_bits cfg) 0)"
  have len: "length V = length vs" by (simp add: V_def G1Points_add_def)
  have "length (proof_Vs p0) = length vs" using len by (simp add: p0_def)
  then have tr0:
    "map (\<lambda>i. AppendG (proof_Vs p0 ! i)) [0..<length vs] = map AppendG (proof_Vs p0)"
    by (rule map_nth_all)
  have "Prove_run ar cfg vs nonce message token_id =
       try_again ar cfg (GetInstance ar token_id) vs nonce message gammas
         (flatten_aL ar cfg vs) aR
         (GetFirstPowerOf2GreaterOrEqTo (length vs) * m_input_value_bits cfg)
         0 p0 (map (\<lambda>i. AppendG (proof_Vs p0 ! i)) [0..<length vs]) 0"
    using assms
    unfolding Prove_run_def Let_def p0_def V_def gammas_def aR_def
    by simp
  then have "Prove_run ar cfg vs nonce message token_id =
       try_again ar cfg (GetInstance ar token_id) vs nonce message gammas
         (flatten_aL ar cfg vs) aR
         (GetFirstPowerOf2GreaterOrEqTo (length vs) * m_input_value_bits cfg)
         0 p0 (map AppendG (proof_Vs p0)) 0"
    by (simp only: tr0)
  moreover have "proof_Vs p0 = V" "proof_Ls p0 = []" "proof_Rs p0 = []"
    "proof_t p0 = Scalar_int ar 0"
    by (simp_all add: p0_def empty_Proof_def)
  ultimately show ?thesis unfolding V_def by blast
qed

text \<open>
  Claim C5, as amended.  \<open>Prove\<close> fails with one of its three precondition errors
  exactly when the message is longer than the maximum, or the value vector is empty, or
  it has more than the maximum number of values; the three tests come first, so in
  that case nothing has been fed to the transcript and no pass of the construction has
  started.  (On inputs that meet the preconditions \<open>Prove\<close> can still fail: see the
  counterexample below.)
\<close>

theorem Prove_precondition_errors:
  "(Prove ar cfg vs nonce message token_id
      \<in> {Inl MessageTooLarge, Inl EmptyValues, Inl TooManyValues}) =
   (length message > m_max_message_size cfg \<or> vs = [] \<or>
    length vs > m_max_input_values cfg) \<and>
   (length message > m_max_message_size cfg \<or> vs = [] \<or>
    length vs > m_max_input_values cfg \<longrightarrow>
      Prove_run ar cfg vs nonce message token_id =
        (Prove ar cfg vs nonce message token_id, [], 0))"
proof (cases "length message > m_max_message_size cfg \<or> vs = [] \<or>
    length vs > m_max_input_values cfg")
  case True
  then show ?thesis by (auto simp: Prove_def Prove_run_def)
next
  case False
  then obtain gammas aR p0 where run:
    "Prove_run ar cfg vs nonce message token_id =
       try_again ar cfg (GetInstance ar token_id) vs nonce message gammas
         (flatten_aL ar cfg vs) aR
         (GetFirstPowerOf2GreaterOrEqTo (length vs) * m_input_value_bits cfg)
         0 p0 (map AppendG (proof_Vs p0)) 0"
    using Prove_run_valid [where message = message and cfg = cfg and vs = vs and ar = ar
        and nonce = nonce and token_id = token_id] by auto
  obtain res tr n where r: "Prove_run ar cfg vs nonce message token_id = (res, tr, n)"
    by (cases "Prove_run ar cfg vs nonce message token_id") auto
  have "res \<notin> {Inl MessageTooLarge, Inl EmptyValues, Inl TooManyValues}"
  proof (cases res)
    case (Inl e)
    with r run have "try_again ar cfg (GetInstance ar token_id) vs nonce message gammas
         (flatten_aL ar cfg vs) aR
         (GetFirstPowerOf2GreaterOrEqTo (length vs) * m_input_value_bits cfg)
         0 p0 (map AppendG (proof_Vs p0)) 0 = (Inl e, tr, n)" by simp
    then have "e = ExceededTries \<or> e = Equality60 \<or> e = IndexOutOfRange"
      by (rule try_again_errors)
    with Inl show ?thesis by auto
  next
    case (Inr p)
    then show ?thesis by simp
  qed
  with r False show ?thesis by (simp add: Prove_def)
qed

theorem Prove_precondition_errors_witness:
  "Prove zero_arith example_config [] (Point 9) [] 0
      \<in> {Inl MessageTooLarge, Inl EmptyValues, Inl TooManyValues} \<and>
   Prove_run zero_arith example_config [] (Point 9) [] 0 = (Inl EmptyValues, [], 0)"
proof -
  have "Prove zero_arith example_config [] (Point 9) [] 0 = Inl EmptyValues"
    by code_simp
  then show ?thesis
    using Prove_precondition_errors [of zero_arith example_config "[]" "Point 9" "[]" 0]
    by simp
qed

text \<open>
  The claim as stated says \<open>exactly when\<close> of every failure of \<open>Prove\<close>.  With
  all challenges zero, a valid input fails as well, by exhausting its tries.
\<close>

theorem Prove_fails_on_valid_input:
  "\<not> ((\<exists>e. Prove zero_arith example_config [5] (Point 9) [] 0 = Inl e) \<longleftrightarrow>
       (length ([] :: byte list) > m_max_message_size example_config \<or>
        ([5] :: int list) = [] \<or>
        length ([5] :: int list) > m_max_input_values example_config))"
proof -
  have "Prove zero_arith example_config [5] (Point 9) [] 0 = Inl ExceededTries"
    by code_simp
  then show ?thesis by (simp add: example_config_def)
qed

text \<open>
  Claim C6.  The counter \<open>num_tries\<close> never passes the configured maximum by more
  than one, on any input, so the loop makes at most \<open>m_max_prove_tries\<close> passes.  If
  every challenge is zero, the input meets the preconditions and every value has at most
  \<open>Config::m_input_value_bits\<close> bits (so that the padding loop of line 166 does not
  wrap around, and \<open>aL\<close> has one block of that width per value), \<open>Prove\<close> fails with
  the error of the exhausted tries when the counter reaches the maximum plus one, after
  exactly \<open>m_max_prove_tries\<close> passes: each pass derives one challenge, and the
  transcript holds that many derivations.
\<close>

theorem retry_bound:
  "snd (snd (Prove_run ar cfg vs nonce message token_id)) \<le> Suc (m_max_prove_tries cfg) \<and>
   ((\<forall>t. GetHash ar t = Scalar_int ar 0) \<and> length message \<le> m_max_message_size cfg \<and>
    vs \<noteq> [] \<and> length vs \<le> m_max_input_values cfg \<and>
    (\<forall>v \<in> set vs. length (GetBits ar v) \<le> m_input_value_bits cfg) \<and>
    m_input_value_bits cfg < 2 ^ 64 \<longrightarrow>
      length (flatten_aL ar cfg vs) = length vs * m_input_value_bits cfg \<and>
      (\<exists>tr. Prove_run ar cfg vs nonce message token_id =
              (Inl ExceededTries, tr, Suc (m_max_prove_tries cfg)) \<and>
            length (filter (\<lambda>e. e = GetHashCall) tr) = m_max_prove_tries cfg))"
proof (intro conjI impI)
  show "snd (snd (Prove_run ar cfg vs nonce message token_id)) \<le> Suc (m_max_prove_tries cfg)"
  proof (cases "length message > m_max_message_size cfg \<or> vs = [] \<or>
      length vs > m_max_input_values cfg")
    case True
    then show ?thesis by (auto simp: Prove_run_def)
  next
    case False
    then obtain gammas aR p0 where run:
      "Prove_run ar cfg vs nonce message token_id =
         try_again ar cfg (GetInstance ar token_id) vs nonce message gammas
           (flatten_aL ar cfg vs) aR
           (GetFirstPowerOf2GreaterOrEqTo (length vs) * m_input_value_bits cfg)
           0 p0 (map AppendG (proof_Vs p0)) 0"
      using Prove_run_valid [where message = message and cfg = cfg and vs = vs and ar = ar
        and nonce = nonce and token_id = token_id] by auto
    obtain res tr n where r: "Prove_run ar cfg vs nonce message token_id = (res, tr, n)"
      by (cases "Prove_run ar cfg vs nonce message token_id") auto
    with run have "try_again ar cfg (GetInstance ar token_id) vs nonce message gammas
           (flatten_aL ar cfg vs) aR
           (GetFirstPowerOf2GreaterOrEqTo (length vs) * m_input_value_bits cfg)
           0 p0 (map AppendG (proof_Vs p0)) 0 = (res, tr, n)" by simp
    from try_again_counter [OF this] have "n \<le> Suc (m_max_prove_tries cfg)" by simp
    with r show ?thesis by simp
  qed
next
  assume "(\<forall>t. GetHash ar t = Scalar_int ar 0) \<and> length message \<le> m_max_message_size cfg \<and>
    vs \<noteq> [] \<and> length vs \<le> m_max_input_values cfg \<and>
    (\<forall>v \<in> set vs. length (GetBits ar v) \<le> m_input_value_bits cfg) \<and>
    m_input_value_bits cfg < 2 ^ 64"
  then have "\<forall>v \<in> set vs. length (GetBits ar v) \<le> m_input_value_bits cfg"
    and "m_input_value_bits cfg < 2 ^ 64"
    by simp_all
  then show "length (flatten_aL ar cfg vs) = length vs * m_input_value_bits cfg"
    by (rule flatten_aL_length)
next
  assume b: "(\<forall>t. GetHash ar t = Scalar_int ar 0) \<and> length message \<le> m_max_message_size cfg \<and>
    vs \<noteq> [] \<and> length vs \<le> m_max_input_values cfg \<and>
    (\<forall>v \<in> set vs. length (GetBits ar v) \<le> m_input_value_bits cfg) \<and>
    m_input_value_bits cfg < 2 ^ 64"
  then have a: "(\<forall>t. GetHash ar t = Scalar_int ar 0) \<and> length message \<le> m_max_message_size cfg \<and>
    vs \<noteq> [] \<and> length vs \<le> m_max_input_values cfg"
    by simp
  then obtain gammas aR p0 where run:
    "Prove_run ar cfg vs nonce message token_id =
       try_again ar cfg (GetInstance ar token_id) vs nonce message gammas
         (flatten_aL ar cfg vs) aR
         (GetFirstPowerOf2GreaterOrEqTo (length vs) * m_input_value_bits cfg)
         0 p0 (map AppendG (proof_Vs p0)) 0"
    using Prove_run_valid [where message = message and cfg = cfg and vs = vs and ar = ar
        and nonce = nonce and token_id = token_id] by auto
  from a have zero: "\<forall>t. GetHash ar t = Scalar_int ar 0" by simp
  have none: "filter (\<lambda>e. e = GetHashCall) (map AppendG (proof_Vs p0)) = []"
    by (induction "proof_Vs p0" arbitrary: p0) (simp_all add: filter_empty_conv)
  have "0 \<le> m_max_prove_tries cfg" by simp
  have "\<exists>tr. try_again ar cfg (GetInstance ar token_id) vs nonce message gammas
         (flatten_aL ar cfg vs) aR
         (GetFirstPowerOf2GreaterOrEqTo (length vs) * m_input_value_bits cfg)
         0 p0 (map AppendG (proof_Vs p0)) 0 =
       (Inl ExceededTries, tr, Suc (m_max_prove_tries cfg)) \<and>
     length (filter (\<lambda>e. e = GetHashCall) tr) =
         length (filter (\<lambda>e. e = GetHashCall) (map AppendG (proof_Vs p0))) +
         (m_max_prove_tries cfg - 0)"
    using try_again_all_zero [OF zero \<open>0 \<le> m_max_prove_tries cfg\<close>,
        where tr = "map AppendG (proof_Vs p0)" and gens = "GetInstance ar token_id"
          and vs = vs and nonce = nonce and message = message and gammas = gammas
          and aL = "flatten_aL ar cfg vs" and aR = aR
          and c = "GetFirstPowerOf2GreaterOrEqTo (length vs) * m_input_value_bits cfg"
          and rc = 0]
    by simp
  then obtain tr where
    "try_again ar cfg (GetInstance ar token_id) vs nonce message gammas
         (flatten_aL ar cfg vs) aR
         (GetFirstPowerOf2GreaterOrEqTo (length vs) * m_input_value_bits cfg)
         0 p0 (map AppendG (proof_Vs p0)) 0 =
       (Inl ExceededTries, tr, Suc (m_max_prove_tries cfg))"
    and "length (filter (\<lambda>e. e = GetHashCall) tr) =
         length (filter (\<lambda>e. e = GetHashCall) (map AppendG (proof_Vs p0))) +
         (m_max_prove_tries cfg - 0)"
    by blast
  with run none show "\<exists>tr. Prove_run ar cfg vs nonce message token_id =
              (Inl ExceededTries, tr, Suc (m_max_prove_tries cfg)) \<and>
            length (filter (\<lambda>e. e = GetHashCall) tr) = m_max_prove_tries cfg"
    by simp
qed

theorem retry_bound_witness:
  "Prove_run zero_arith example_config [5] (Point 9) [] 0 =
     (Inl ExceededTries,
      [AppendG (Point 99), AppendG (Point 24), AppendG (Point 6), GetHashCall,
       AppendG (Point 24), AppendG (Point 89), GetHashCall,
       AppendG (Point 24), AppendG (Point 71), GetHashCall], 4) \<and>
   m_max_prove_tries example_config = 3 \<and>
   GetBits zero_arith 5 = [True, False, True] \<and>
   length (flatten_aL zero_arith example_config [5]) =
     length [5 :: int] * m_input_value_bits example_config \<and>
   (\<exists>tr. Prove_run zero_arith example_config [5] (Point 9) [] 0 =
              (Inl ExceededTries, tr, Suc (m_max_prove_tries example_config)) \<and>
            length (filter (\<lambda>e. e = GetHashCall) tr) = m_max_prove_tries example_config)"
proof -
  have run: "Prove_run zero_arith example_config [5] (Point 9) [] 0 =
     (Inl ExceededTries,
      [AppendG (Point 99), AppendG (Point 24), AppendG (Point 6), GetHashCall,
       AppendG (Point 24), AppendG (Point 89), GetHashCall,
       AppendG (Point 24), AppendG (Point 71), GetHashCall], 4)"
    by code_simp
  have bits: "GetBits zero_arith 5 = [True, False, True]"
    by code_simp
  have h: "(\<forall>t. GetHash zero_arith t = Scalar_int zero_arith 0) \<and>
        length ([] :: byte list) \<le> m_max_message_size example_config \<and>
        ([5] :: int list) \<noteq> [] \<and> length ([5] :: int list) \<le> m_max_input_values example_config \<and>
        (\<forall>v \<in> set [5]. length (GetBits zero_arith v) \<le> m_input_value_bits example_config) \<and>
        m_input_value_bits example_config < 2 ^ 64"
    using bits by (simp add: zero_arith_def mod_arith_def example_config_def)
  from retry_bound [of zero_arith example_config "[5]" "Point 9" "[]" 0, THEN conjunct2] h
  have "length (flatten_aL zero_arith example_config [5]) =
          length [5 :: int] * m_input_value_bits example_config \<and>
        (\<exists>tr. Prove_run zero_arith example_config [5] (Point 9) [] 0 =
              (Inl ExceededTries, tr, Suc (m_max_prove_tries example_config)) \<and>
            length (filter (\<lambda>e. e = GetHashCall) tr) = m_max_prove_tries example_config)"
    by blast
  with run bits show ?thesis by (simp add: example_config_def)
qed

subsection \<open>The order of the transcript\<close>

lemma Prove_run_first_pass:
  assumes "Prove_run ar cfg vs nonce message token_id = (Inr p, tr, Suc 0)"
  shows "\<exists>gammas aR p0.
     attempt ar cfg (GetInstance ar token_id) vs nonce message gammas (flatten_aL ar cfg vs) aR
       (GetFirstPowerOf2GreaterOrEqTo (length vs) * m_input_value_bits cfg)
       p0 (map AppendG (proof_Vs p0)) 0 = Done p tr \<and>
     length (proof_Vs p0) = length vs \<and> proof_Ls p0 = [] \<and> proof_Rs p0 = [] \<and>
     vs \<noteq> [] \<and> length vs \<le> m_max_input_values cfg"
proof -
  have valid: "\<not> length message > m_max_message_size cfg" "vs \<noteq> []"
    "\<not> length vs > m_max_input_values cfg"
    using assms by (auto simp: Prove_run_def split: if_splits)
  from Prove_run_valid [OF valid, where ar = ar and nonce = nonce and token_id = token_id]
  obtain gammas aR p0 where
    run: "Prove_run ar cfg vs nonce message token_id =
       try_again ar cfg (GetInstance ar token_id) vs nonce message gammas
         (flatten_aL ar cfg vs) aR
         (GetFirstPowerOf2GreaterOrEqTo (length vs) * m_input_value_bits cfg)
         0 p0 (map AppendG (proof_Vs p0)) 0"
    and Vs: "proof_Vs p0 =
       G1Points_add ar
         (map (g_mul ar (gens_H (GetInstance ar token_id)))
            (map (\<lambda>i. GetHashWithSalt ar nonce (100 + i)) [0..<length vs]))
         (map (g_mul ar (gens_G (GetInstance ar token_id))) vs)"
    and LR: "proof_Ls p0 = []" "proof_Rs p0 = []"
    by blast
  from run assms have "try_again ar cfg (GetInstance ar token_id) vs nonce message gammas
         (flatten_aL ar cfg vs) aR
         (GetFirstPowerOf2GreaterOrEqTo (length vs) * m_input_value_bits cfg)
         0 p0 (map AppendG (proof_Vs p0)) 0 = (Inr p, tr, Suc 0)" by simp
  then have "attempt ar cfg (GetInstance ar token_id) vs nonce message gammas
       (flatten_aL ar cfg vs) aR
       (GetFirstPowerOf2GreaterOrEqTo (length vs) * m_input_value_bits cfg)
       p0 (map AppendG (proof_Vs p0)) 0 = Done p tr"
    by (rule try_again_first_pass)
  moreover have "length (proof_Vs p0) = length vs"
    by (simp add: Vs G1Points_add_def)
  ultimately show ?thesis using LR valid by auto
qed

lemma attempt_Retry_transcript:
  assumes "attempt ar cfg gens vs nonce message gammas aL aR c proof tr rc = Retry p' tr' rc'"
  shows "\<exists>ev. tr' = tr @ ev"
  using assms
  by (auto simp: attempt_def Let_def split: if_splits sum.splits prod.splits
        dest!: InnerProductArgument_effect)

lemma try_again_order:
  assumes "try_again ar cfg gens vs nonce message gammas aL aR c num_tries proof tr rc
             = (Inr p, tr', n)"
  shows "\<exists>pre y z x.
     y = GetHash ar (tr @ pre @ [AppendG (proof_A p), AppendG (proof_S p)]) \<and>
     z = GetHash ar (tr @ pre @
           [AppendG (proof_A p), AppendG (proof_S p), GetHashCall, AppendS y]) \<and>
     x = GetHash ar (tr @ pre @
           [AppendG (proof_A p), AppendG (proof_S p), GetHashCall, AppendS y,
            GetHashCall, AppendS z, AppendG (proof_T1 p), AppendG (proof_T2 p)]) \<and>
     tr' = tr @ pre @
          [AppendG (proof_A p), AppendG (proof_S p), GetHashCall, AppendS y,
           GetHashCall, AppendS z, AppendG (proof_T1 p), AppendG (proof_T2 p),
           GetHashCall, AppendS x, AppendS (proof_tau_x p), AppendS (proof_mu p),
           AppendS (proof_t p), GetHashCall] @
          concat (map (round_events p) [0..<log2 c]) \<and>
     proof_Vs p = proof_Vs proof \<and> proof_t p = proof_t proof \<and>
     (n = Suc num_tries \<longrightarrow> pre = [])"
  using assms
proof (induction ar cfg gens vs nonce message gammas aL aR c num_tries "proof" tr rc
        rule: try_again.induct)
  case (1 ar cfg gens vs nonce message gammas aL aR c num_tries pf tr rc)
  show ?case
  proof (cases "num_tries + 1 > m_max_prove_tries cfg")
    case True
    with "1.prems" show ?thesis
      by (subst (asm) try_again.simps) (auto simp: Let_def)
  next
    case False
    show ?thesis
    proof (cases "attempt ar cfg gens vs nonce message gammas aL aR c pf tr rc")
      case (Retry p1 t1 rc1)
      with "1.prems" False have rec:
        "try_again ar cfg gens vs nonce message gammas aL aR c (num_tries + 1) p1 t1 rc1
           = (Inr p, tr', n)"
        by (subst (asm) try_again.simps) (simp add: Let_def)
      from attempt_Retry_transcript [OF Retry] obtain ev where t1: "t1 = tr @ ev"
        by blast
      from attempt_Retry [OF Retry] have Vs: "proof_Vs p1 = proof_Vs pf" "proof_t p1 = proof_t pf"
        by blast+
      from try_again_counter [OF rec] have n: "n \<noteq> Suc num_tries" by simp
      from "1.IH" [OF refl False Retry rec] obtain pre y z x where
        "y = GetHash ar (t1 @ pre @ [AppendG (proof_A p), AppendG (proof_S p)])"
        "z = GetHash ar (t1 @ pre @
           [AppendG (proof_A p), AppendG (proof_S p), GetHashCall, AppendS y])"
        "x = GetHash ar (t1 @ pre @
           [AppendG (proof_A p), AppendG (proof_S p), GetHashCall, AppendS y,
            GetHashCall, AppendS z, AppendG (proof_T1 p), AppendG (proof_T2 p)])"
        "tr' = t1 @ pre @
          [AppendG (proof_A p), AppendG (proof_S p), GetHashCall, AppendS y,
           GetHashCall, AppendS z, AppendG (proof_T1 p), AppendG (proof_T2 p),
           GetHashCall, AppendS x, AppendS (proof_tau_x p), AppendS (proof_mu p),
           AppendS (proof_t p), GetHashCall] @
          concat (map (round_events p) [0..<log2 c])"
        "proof_Vs p = proof_Vs p1" "proof_t p = proof_t p1"
        by blast
      then show ?thesis
        using n Vs
        by (intro exI [of _ "ev @ pre"] exI [of _ y] exI [of _ z] exI [of _ x])
           (simp add: t1)
    next
      case (Done p1 t1)
      with "1.prems" False have eq: "p1 = p" "t1 = tr'"
        by (subst (asm) try_again.simps; simp add: Let_def)+
      from attempt_Done [OF Done] eq show ?thesis
        by (intro exI [of _ "[]"]) auto
    next
      case (Thrown e t1)
      with "1.prems" False show ?thesis
        by (subst (asm) try_again.simps) (auto simp: Let_def)
    qed
  qed
qed

text \<open>
  The transcript of every call of \<open>Prove\<close> that returns a proof: the value commitments
  \<open>Vs\<close>; the events \<open>pre\<close> of the passes that ended in \<open>goto try_again\<close> (none when
  the call returns from its first pass); and the events of the pass that returned:
  \<open>A\<close>, \<open>S\<close>, the derivation of \<open>y\<close>, \<open>y\<close>, the derivation of \<open>z\<close>, \<open>z\<close>, \<open>T1\<close>,
  \<open>T2\<close>, the derivation of \<open>x\<close>, then \<open>x\<close>, \<open>tau_x\<close>, \<open>mu\<close> and the member \<open>t\<close>,
  the derivation of \<open>x_ip\<close>, and for each round \<open>i\<close> of the inner-product argument
  \<open>Ls[i]\<close>, \<open>Rs[i]\<close> and the derivation of that round's challenge.  The member
  \<open>t\<close> still holds the scalar of the default-constructed proof.
\<close>

lemma Prove_transcript_events:
  assumes "Prove_run ar cfg vs nonce message token_id = (Inr p, tr, n)"
  shows "\<exists>pre y z x.
     y = GetHash ar (map AppendG (proof_Vs p) @ pre @
           [AppendG (proof_A p), AppendG (proof_S p)]) \<and>
     z = GetHash ar (map AppendG (proof_Vs p) @ pre @
           [AppendG (proof_A p), AppendG (proof_S p), GetHashCall, AppendS y]) \<and>
     x = GetHash ar (map AppendG (proof_Vs p) @ pre @
           [AppendG (proof_A p), AppendG (proof_S p), GetHashCall, AppendS y,
            GetHashCall, AppendS z, AppendG (proof_T1 p), AppendG (proof_T2 p)]) \<and>
     tr = map AppendG (proof_Vs p) @ pre @
          [AppendG (proof_A p), AppendG (proof_S p), GetHashCall, AppendS y,
           GetHashCall, AppendS z, AppendG (proof_T1 p), AppendG (proof_T2 p),
           GetHashCall, AppendS x, AppendS (proof_tau_x p), AppendS (proof_mu p),
           AppendS (proof_t p), GetHashCall] @
          concat (map (round_events p)
            [0..<log2 (GetFirstPowerOf2GreaterOrEqTo (length vs) * m_input_value_bits cfg)]) \<and>
     length (proof_Vs p) = length vs \<and> proof_t p = Scalar_int ar 0 \<and>
     (n = Suc 0 \<longrightarrow>
        pre = [] \<and>
        length (proof_Ls p) =
          log2 (GetFirstPowerOf2GreaterOrEqTo (length vs) * m_input_value_bits cfg) \<and>
        length (proof_Rs p) = length (proof_Ls p))"
proof -
  define c where "c = GetFirstPowerOf2GreaterOrEqTo (length vs) * m_input_value_bits cfg"
  have valid: "\<not> length message > m_max_message_size cfg" "vs \<noteq> []"
    "\<not> length vs > m_max_input_values cfg"
    using assms by (auto simp: Prove_run_def split: if_splits)
  from Prove_run_valid [OF valid, where ar = ar and nonce = nonce and token_id = token_id]
  obtain gammas aR p0 where
    run: "Prove_run ar cfg vs nonce message token_id =
       try_again ar cfg (GetInstance ar token_id) vs nonce message gammas
         (flatten_aL ar cfg vs) aR c 0 p0 (map AppendG (proof_Vs p0)) 0"
    and Vs: "proof_Vs p0 =
       G1Points_add ar
         (map (g_mul ar (gens_H (GetInstance ar token_id)))
            (map (\<lambda>i. GetHashWithSalt ar nonce (100 + i)) [0..<length vs]))
         (map (g_mul ar (gens_G (GetInstance ar token_id))) vs)"
    and LR: "proof_Ls p0 = []" "proof_Rs p0 = []"
    and t0: "proof_t p0 = Scalar_int ar 0"
    unfolding c_def by blast
  have len: "length (proof_Vs p0) = length vs"
    by (simp add: Vs G1Points_add_def)
  from run assms have ta: "try_again ar cfg (GetInstance ar token_id) vs nonce message gammas
         (flatten_aL ar cfg vs) aR c 0 p0 (map AppendG (proof_Vs p0)) 0 = (Inr p, tr, n)"
    by simp
  from try_again_order [OF ta] obtain pre y z x where
    y: "y = GetHash ar (map AppendG (proof_Vs p0) @ pre @
           [AppendG (proof_A p), AppendG (proof_S p)])"
    and z: "z = GetHash ar (map AppendG (proof_Vs p0) @ pre @
           [AppendG (proof_A p), AppendG (proof_S p), GetHashCall, AppendS y])"
    and x: "x = GetHash ar (map AppendG (proof_Vs p0) @ pre @
           [AppendG (proof_A p), AppendG (proof_S p), GetHashCall, AppendS y,
            GetHashCall, AppendS z, AppendG (proof_T1 p), AppendG (proof_T2 p)])"
    and tr: "tr = map AppendG (proof_Vs p0) @ pre @
          [AppendG (proof_A p), AppendG (proof_S p), GetHashCall, AppendS y,
           GetHashCall, AppendS z, AppendG (proof_T1 p), AppendG (proof_T2 p),
           GetHashCall, AppendS x, AppendS (proof_tau_x p), AppendS (proof_mu p),
           AppendS (proof_t p), GetHashCall] @
          concat (map (round_events p) [0..<log2 c])"
    and pVs: "proof_Vs p = proof_Vs p0" "proof_t p = proof_t p0"
    and pre: "n = Suc 0 \<longrightarrow> pre = []"
    by blast
  have first: "length (proof_Ls p) = log2 c \<and> length (proof_Rs p) = length (proof_Ls p)"
    if "n = Suc 0"
  proof -
    from ta that have "attempt ar cfg (GetInstance ar token_id) vs nonce message gammas
       (flatten_aL ar cfg vs) aR c p0 (map AppendG (proof_Vs p0)) 0 = Done p tr"
      by (intro try_again_first_pass) simp
    from attempt_Done [OF this] LR show ?thesis by auto
  qed
  show ?thesis
    unfolding c_def [symmetric]
    apply (rule exI [of _ pre], rule exI [of _ y], rule exI [of _ z], rule exI [of _ x])
    using y z x tr pVs pre len first t0
    apply simp
    done
qed

text \<open>
  Claim C9, at a failing input.  \<open>Prove\<close> on the value 5, with 4 bits per value and
  no zero challenge, returns from its first pass.  Its transcript has the claimed order
  up to \<open>mu\<close>.  The next event, the 14th, is the member \<open>t\<close> of the proof (line 304),
  which \<open>Prove\<close> never writes: the scalar 0 of the default-constructed proof.  The
  inner product \<open>t_hat\<close> that the claim places there, written to \<open>proof.t_hat\<close> at
  line 287, is 89.
\<close>

theorem Prove_feeds_t_where_t_hat_is_claimed:
  "\<exists>p tr. Prove_run (example_arith []) example_config [5] (Point 9) [] 0 = (Inr p, tr, Suc 0) \<and>
     tr = [AppendG (Point 99), AppendG (Point 24), AppendG (Point 6), GetHashCall,
           AppendS 4, GetHashCall, AppendS 6, AppendG (Point 38), AppendG (Point 96),
           GetHashCall, AppendS 10, AppendS 45, AppendS 8, AppendS 0, GetHashCall,
           AppendG (Point 95), AppendG (Point 92), GetHashCall,
           AppendG (Point 31), AppendG (Point 51), GetHashCall] \<and>
     proof_Vs p = [Point 99] \<and> proof_A p = Point 24 \<and> proof_S p = Point 6 \<and>
     proof_T1 p = Point 38 \<and> proof_T2 p = Point 96 \<and>
     proof_tau_x p = 45 \<and> proof_mu p = 8 \<and> proof_t_hat p = 89 \<and>
     proof_t p = proof_t (empty_Proof (example_arith [])) \<and>
     tr ! 13 = AppendS (proof_t p) \<and> tr ! 13 \<noteq> AppendS (proof_t_hat p)"
proof -
  have run: "Prove_run (example_arith []) example_config [5] (Point 9) [] 0 =
     (Inr \<lparr>proof_Vs = [Point 99], proof_Ls = [Point 95, Point 31],
           proof_Rs = [Point 92, Point 51], proof_A = Point 24, proof_S = Point 6,
           proof_T1 = Point 38, proof_T2 = Point 96, proof_tau_x = 45, proof_mu = 8,
           proof_t_hat = 89, proof_t = 0, proof_a = 65, proof_b = 59\<rparr>,
      [AppendG (Point 99), AppendG (Point 24), AppendG (Point 6), GetHashCall,
       AppendS 4, GetHashCall, AppendS 6, AppendG (Point 38), AppendG (Point 96),
       GetHashCall, AppendS 10, AppendS 45, AppendS 8, AppendS 0, GetHashCall,
       AppendG (Point 95), AppendG (Point 92), GetHashCall,
       AppendG (Point 31), AppendG (Point 51), GetHashCall], Suc 0)"
    by code_simp
  have t0: "proof_t (empty_Proof (example_arith [])) = 0"
    by code_simp
  show ?thesis
    using run t0 by simp
qed

subsection \<open>The shape of a proof\<close>

lemma pow2_from_power:
  "\<exists>k. pow2_from (2 ^ j) n = 2 ^ k"
proof (induction "2 ^ j :: nat" n arbitrary: j rule: pow2_from.induct)
  case (1 n)
  show ?case
  proof (cases "(2 :: nat) ^ j < n")
    case True
    have "\<exists>k. pow2_from (2 ^ Suc j) n = 2 ^ k"
      using "1.hyps" [of "Suc j"] True by simp
    then show ?thesis using True by (subst pow2_from.simps) simp
  next
    case False
    then show ?thesis by (subst pow2_from.simps) auto
  qed
qed

lemma GetFirstPowerOf2GreaterOrEqTo_power: "\<exists>k. GetFirstPowerOf2GreaterOrEqTo n = 2 ^ k"
  using pow2_from_power [of 0 n] by (simp add: GetFirstPowerOf2GreaterOrEqTo_def)

lemma log2_double: "0 < m \<Longrightarrow> log2 (2 * m) = Suc (log2 m)"
  by (subst log2.simps) simp

lemma log2_power_times: "0 < b \<Longrightarrow> log2 (2 ^ k * b) = k + log2 b"
proof (induction k)
  case 0
  then show ?case by simp
next
  case (Suc k)
  have "log2 (2 ^ Suc k * b) = log2 (2 * (2 ^ k * b))" by (simp add: mult.assoc)
  also have "\<dots> = Suc (log2 (2 ^ k * b))" using Suc.prems by (intro log2_double) simp
  finally show ?case using Suc by simp
qed

lemma log2_power: "log2 (2 ^ k) = k"
  using log2_power_times [of 1 k] by (simp add: log2_small)

lemma rounds_of_concat:
  assumes "0 < m_input_value_bits cfg"
  shows "log2 (GetFirstPowerOf2GreaterOrEqTo n * m_input_value_bits cfg) =
         GetInnerProdArgRounds cfg n"
proof -
  obtain k where k: "GetFirstPowerOf2GreaterOrEqTo n = 2 ^ k"
    using GetFirstPowerOf2GreaterOrEqTo_power by blast
  show ?thesis
    using assms by (simp add: GetInnerProdArgRounds_def k log2_power_times log2_power)
qed

text \<open>
  A proof that \<open>Prove\<close> returns from its first pass has one entry of \<open>Ls\<close> and of
  \<open>Rs\<close> for each halving of the concatenated bit count, and one value commitment for
  each value.
\<close>

lemma first_pass_shape:
  assumes "Prove_run ar cfg vs nonce message token_id = (Inr p, tr, Suc 0)"
  shows "length (proof_Ls p) =
           log2 (GetFirstPowerOf2GreaterOrEqTo (length vs) * m_input_value_bits cfg) \<and>
         length (proof_Rs p) = length (proof_Ls p) \<and>
         1 \<le> length (proof_Vs p) \<and> length (proof_Vs p) \<le> m_max_input_values cfg"
proof -
  from Prove_run_first_pass [OF assms] obtain gammas aR p0 where
    att: "attempt ar cfg (GetInstance ar token_id) vs nonce message gammas
       (flatten_aL ar cfg vs) aR
       (GetFirstPowerOf2GreaterOrEqTo (length vs) * m_input_value_bits cfg)
       p0 (map AppendG (proof_Vs p0)) 0 = Done p tr"
    and p0: "length (proof_Vs p0) = length vs" "proof_Ls p0 = []" "proof_Rs p0 = []"
    and vs: "vs \<noteq> []" "length vs \<le> m_max_input_values cfg"
    by blast
  from attempt_Done [OF att] p0 vs show ?thesis
    by (cases vs) auto
qed

text \<open>
  Over any number of passes the value commitments stay as they were computed before
  the loop, and \<open>Ls\<close> and \<open>Rs\<close> only grow: a pass that fails inside the inner-product
  argument leaves its entries in the proof, and the next pass adds to them.
\<close>

lemma try_again_shape:
  assumes "try_again ar cfg gens vs nonce message gammas aL aR c num_tries proof tr rc
             = (Inr p, tr', n)"
  shows "proof_Vs p = proof_Vs proof \<and>
         (\<exists>Ls' Rs'. proof_Ls p = proof_Ls proof @ Ls' \<and> proof_Rs p = proof_Rs proof @ Rs' \<and>
            length Ls' = length Rs' \<and> log2 c \<le> length Ls')"
  using assms
proof (induction ar cfg gens vs nonce message gammas aL aR c num_tries "proof" tr rc
        rule: try_again.induct)
  case (1 ar cfg gens vs nonce message gammas aL aR c num_tries pf tr rc)
  show ?case
  proof (cases "num_tries + 1 > m_max_prove_tries cfg")
    case True
    with "1.prems" show ?thesis
      by (subst (asm) try_again.simps) (auto simp: Let_def)
  next
    case False
    show ?thesis
    proof (cases "attempt ar cfg gens vs nonce message gammas aL aR c pf tr rc")
      case (Retry p1 t1 rc1)
      with "1.prems" False have
        "try_again ar cfg gens vs nonce message gammas aL aR c (num_tries + 1) p1 t1 rc1
           = (Inr p, tr', n)"
        by (subst (asm) try_again.simps) (simp add: Let_def)
      from "1.IH" [OF refl False Retry this] obtain Ls' Rs' where
        a: "proof_Vs p = proof_Vs p1" "proof_Ls p = proof_Ls p1 @ Ls'"
           "proof_Rs p = proof_Rs p1 @ Rs'" "length Ls' = length Rs'" "log2 c \<le> length Ls'"
        by blast
      from attempt_Retry [OF Retry] obtain Ls1 Rs1 where
        b: "proof_Vs p1 = proof_Vs pf" "proof_Ls p1 = proof_Ls pf @ Ls1"
           "proof_Rs p1 = proof_Rs pf @ Rs1" "length Ls1 = length Rs1"
        by blast
      have "proof_Ls p = proof_Ls pf @ (Ls1 @ Ls')" "proof_Rs p = proof_Rs pf @ (Rs1 @ Rs')"
        "length (Ls1 @ Ls') = length (Rs1 @ Rs')" "log2 c \<le> length (Ls1 @ Ls')"
        using a b by simp_all
      then show ?thesis using a(1) b(1) by metis
    next
      case (Done p1 t1)
      with "1.prems" False have "p1 = p"
        by (subst (asm) try_again.simps) (auto simp: Let_def)
      with attempt_Done [OF Done] show ?thesis by auto
    next
      case (Thrown e t1)
      with "1.prems" False show ?thesis
        by (subst (asm) try_again.simps) (auto simp: Let_def)
    qed
  qed
qed

text \<open>
  Claim C4, at a failing input.  With 4 bits per value and one value the inner-product
  argument has \<open>log2 (1 * 4) = 2\<close> rounds.  The transcript below yields a zero
  challenge once, at the first round of the first pass (after 17 events).  \<open>Prove\<close>
  tries again and returns a proof with three entries in \<open>Ls\<close> and in \<open>Rs\<close>: the entry
  of the abandoned round and the two of the second pass.
\<close>

theorem retry_in_argument_leaves_stale_rounds:
  "\<exists>p. Prove (example_arith [17]) example_config [5] (Point 9) [] 0 = Inr p \<and>
       length (proof_Ls p) = 3 \<and> length (proof_Rs p) = 3 \<and>
       proof_Ls p ! 0 = Point 95 \<and>
       log2 (GetFirstPowerOf2GreaterOrEqTo (length [5 :: int]) *
             m_input_value_bits example_config) = 2"
proof -
  have "Prove (example_arith [17]) example_config [5] (Point 9) [] 0 =
     Inr \<lparr>proof_Vs = [Point 99], proof_Ls = [Point 95, Point 43, Point 19],
          proof_Rs = [Point 92, Point 14, Point 74], proof_A = Point 24,
          proof_S = Point 89, proof_T1 = Point 44, proof_T2 = Point 26,
          proof_tau_x = 85, proof_mu = 37, proof_t_hat = 55, proof_t = 0, proof_a = 43,
          proof_b = 88\<rparr>"
    by code_simp
  moreover have "log2 (GetFirstPowerOf2GreaterOrEqTo (length [5 :: int]) *
             m_input_value_bits example_config) = 2"
    by code_simp
  ultimately show ?thesis by simp
qed

subsection \<open>The verifier's shape validation\<close>

lemma ValidateProofsBySizes_iff:
  "ValidateProofsBySizes cfg indexed_proofs num_rounds =
     (\<forall>ip \<in> set indexed_proofs.
        length (proof_Vs (snd ip)) \<noteq> 0 \<and>
        length (proof_Vs (snd ip)) \<le> m_max_input_values cfg \<and>
        length (proof_Ls (snd ip)) = num_rounds \<and>
        length (proof_Ls (snd ip)) = length (proof_Rs (snd ip)))"
  by (induction indexed_proofs) (auto simp: Let_def)

text \<open>
  What \<open>Verify\<close> rejects by shape: a proof without value commitments, with too many,
  with \<open>Ls\<close> and \<open>Rs\<close> of different sizes, or with a number of rounds other than
  \<open>GetInnerProdArgRounds(Config::m_input_value_bits)\<close>.
\<close>

lemma Verify_rejects_shapes:
  assumes "ip \<in> set indexed_proofs"
    and "proof_Vs (snd ip) = [] \<or> length (proof_Vs (snd ip)) > m_max_input_values cfg \<or>
         length (proof_Ls (snd ip)) \<noteq> length (proof_Rs (snd ip)) \<or>
         length (proof_Ls (snd ip)) \<noteq> GetInnerProdArgRounds cfg (m_input_value_bits cfg)"
  shows "Verify cfg batch_check indexed_proofs token_id = False"
  using assms by (auto simp: Verify_def Let_def ValidateProofsBySizes_iff)

lemma Verify_passes_shapes:
  assumes "\<forall>ip \<in> set indexed_proofs.
        proof_Vs (snd ip) \<noteq> [] \<and> length (proof_Vs (snd ip)) \<le> m_max_input_values cfg \<and>
        length (proof_Ls (snd ip)) = GetInnerProdArgRounds cfg (m_input_value_bits cfg) \<and>
        length (proof_Ls (snd ip)) = length (proof_Rs (snd ip))"
  shows "Verify cfg batch_check indexed_proofs token_id =
         batch_check (GetInnerProdArgRounds cfg (m_input_value_bits cfg)) indexed_proofs token_id"
  using assms by (auto simp: Verify_def Let_def ValidateProofsBySizes_iff)

text \<open>
  With 64 bits per value the verifier asks for 12 rounds, whatever the number of
  values; a proof of 1 to 16 values has 6 to 10.
\<close>

lemma rounds_64:
  "GetInnerProdArgRounds config_64 (m_input_value_bits config_64) = 12"
  by code_simp

lemma rounds_64_values:
  assumes "1 \<le> n" and "n \<le> 16"
  shows "GetInnerProdArgRounds config_64 n \<le> 10"
proof -
  have "\<forall>n \<in> set [1..<17]. GetInnerProdArgRounds config_64 n \<le> 10"
    by code_simp
  moreover have "n \<in> set [1..<17]" using assms by simp
  ultimately show ?thesis by blast
qed

lemma first_pass_proof_rejected_64:
  assumes "Prove_run ar config_64 vs nonce message token_id = (Inr p, tr, Suc 0)"
  shows "Verify config_64 batch_check [(i, p)] token_id = False"
proof -
  have bits: "0 < m_input_value_bits config_64" by (simp add: config_64_def)
  from first_pass_shape [OF assms] rounds_of_concat [OF bits]
  have len: "length (proof_Ls p) = GetInnerProdArgRounds config_64 (length vs)"
    and n: "1 \<le> length (proof_Vs p)" "length (proof_Vs p) \<le> m_max_input_values config_64"
    by simp_all
  from Prove_run_first_pass [OF assms]
  have "1 \<le> length vs" "length vs \<le> 16"
    by (cases vs; auto simp: config_64_def)+
  then have "GetInnerProdArgRounds config_64 (length vs) \<le> 10"
    by (rule rounds_64_values)
  with len have "length (proof_Ls p) \<noteq>
      GetInnerProdArgRounds config_64 (m_input_value_bits config_64)"
    by (simp add: rounds_64)
  then show ?thesis
    by (intro Verify_rejects_shapes [of "(i, p)"]) simp_all
qed

text \<open>
  Claim C1, at a failing input.  \<open>Prove\<close> succeeds on one value, and \<open>Verify\<close>
  rejects the proof it returned, whatever the check of the later stages says: the
  proof has \<open>log2 (1 * 4) = 2\<close> rounds, and \<open>Verify\<close> asks every proof for
  \<open>GetInnerProdArgRounds (4) = 4\<close>.
\<close>

theorem Verify_rejects_proved_value:
  "\<exists>p. Prove (example_arith []) example_config [5] (Point 9) [] 0 = Inr p \<and>
       length (proof_Ls p) = 2 \<and>
       GetInnerProdArgRounds example_config (m_input_value_bits example_config) = 4 \<and>
       (\<forall>batch_check. Verify example_config batch_check [(0, p)] 0 = False)"
proof -
  have run: "Prove (example_arith []) example_config [5] (Point 9) [] 0 =
     Inr \<lparr>proof_Vs = [Point 99], proof_Ls = [Point 95, Point 31],
          proof_Rs = [Point 92, Point 51], proof_A = Point 24, proof_S = Point 6,
          proof_T1 = Point 38, proof_T2 = Point 96, proof_tau_x = 45, proof_mu = 8,
          proof_t_hat = 89, proof_t = 0, proof_a = 65, proof_b = 59\<rparr>"
    by code_simp
  have rounds: "GetInnerProdArgRounds example_config (m_input_value_bits example_config) = 4"
    by code_simp
  show ?thesis
    using run rounds by (simp add: Verify_def Let_def)
qed

text \<open>
  Claim C3, at a failing input.  For a proof with one value commitment the documented
  number of rounds is \<open>log2 1 + log2 64 = 6\<close>.  \<open>Verify\<close> lets a proof with one value
  commitment and 12 rounds pass the shape validation (its verdict is then the one of
  the later stages), and rejects by shape a proof with one value commitment and 6
  rounds.
\<close>

theorem Verify_round_count_ignores_value_count:
  "GetInnerProdArgRounds config_64 1 = 6 \<and>
   (\<forall>batch_check. Verify config_64 batch_check [(0, shaped_proof 1 12 12)] 0 =
      batch_check 12 [(0, shaped_proof 1 12 12)] 0) \<and>
   (\<forall>batch_check. Verify config_64 batch_check [(0, shaped_proof 1 6 6)] 0 = False)"
proof (intro conjI allI)
  show "GetInnerProdArgRounds config_64 1 = 6" by code_simp
next
  fix batch_check
  show "Verify config_64 batch_check [(0, shaped_proof 1 12 12)] 0 =
      batch_check 12 [(0, shaped_proof 1 12 12)] 0"
    using Verify_passes_shapes [of "[(0, shaped_proof 1 12 12)]" config_64 batch_check 0]
    by (simp add: rounds_64 shaped_proof_def) (simp add: config_64_def)
next
  fix batch_check
  show "Verify config_64 batch_check [(0, shaped_proof 1 6 6)] 0 = False"
    by (rule Verify_rejects_shapes [of "(0, shaped_proof 1 6 6)"])
       (simp_all add: rounds_64 shaped_proof_def)
qed

subsection \<open>The value commitment of the prover and of recovery\<close>

lemma Prove_value_commitments:
  assumes "Prove_run ar cfg vs nonce message token_id = (Inr p, tr, n)"
  shows "proof_Vs p =
       G1Points_add ar
         (map (g_mul ar (gens_H (GetInstance ar token_id)))
            (map (\<lambda>i. GetHashWithSalt ar nonce (100 + i)) [0..<length vs]))
         (map (g_mul ar (gens_G (GetInstance ar token_id))) vs) \<and>
     proof_Vs p ! 0 =
       g_add ar (g_mul ar (gens_H (GetInstance ar token_id)) (GetHashWithSalt ar nonce 100))
                (g_mul ar (gens_G (GetInstance ar token_id)) (vs ! 0))"
proof -
  have valid: "\<not> length message > m_max_message_size cfg" "vs \<noteq> []"
    "\<not> length vs > m_max_input_values cfg"
    using assms by (auto simp: Prove_run_def split: if_splits)
  from Prove_run_valid [OF valid, where ar = ar and nonce = nonce and token_id = token_id]
  obtain gammas aR p0 where
    run: "Prove_run ar cfg vs nonce message token_id =
       try_again ar cfg (GetInstance ar token_id) vs nonce message gammas
         (flatten_aL ar cfg vs) aR
         (GetFirstPowerOf2GreaterOrEqTo (length vs) * m_input_value_bits cfg)
         0 p0 (map AppendG (proof_Vs p0)) 0"
    and Vs: "proof_Vs p0 =
       G1Points_add ar
         (map (g_mul ar (gens_H (GetInstance ar token_id)))
            (map (\<lambda>i. GetHashWithSalt ar nonce (100 + i)) [0..<length vs]))
         (map (g_mul ar (gens_G (GetInstance ar token_id))) vs)"
    by blast
  from run assms have "try_again ar cfg (GetInstance ar token_id) vs nonce message gammas
         (flatten_aL ar cfg vs) aR
         (GetFirstPowerOf2GreaterOrEqTo (length vs) * m_input_value_bits cfg)
         0 p0 (map AppendG (proof_Vs p0)) 0 = (Inr p, tr, n)" by simp
  from try_again_shape [OF this] have same: "proof_Vs p = proof_Vs p0" by simp
  obtain v vs' where vs: "vs = v # vs'" using valid(2) by (cases vs) auto
  have "0 < length vs" using vs by simp
  then have "[0..<length vs] = 0 # [Suc 0..<length vs]" by (rule upt_conv_Cons)
  then have "proof_Vs p0 ! 0 =
       g_add ar (g_mul ar (gens_H (GetInstance ar token_id)) (GetHashWithSalt ar nonce 100))
                (g_mul ar (gens_G (GetInstance ar token_id)) (vs ! 0))"
    using vs by (simp add: Vs G1Points_add_def)
  with same Vs show ?thesis by simp
qed

text \<open>
  Recovery compares the first value commitment with \<open>G * gamma + H * value\<close>; what
  \<open>Prove\<close> put there is \<open>H * gamma + G * value\<close>.  Where the two differ, the proof of
  \<open>Prove\<close> is not recovered.
\<close>

lemma recovery_needs_its_own_commitment:
  assumes "Prove_run ar cfg vs nonce message token_id = (Inr p, tr, n)"
    and "tx_Vs tx_in = proof_Vs p" and "tx_nonce tx_in = nonce"
    and "g_add ar (g_mul ar (gens_G (GetInstance ar token_id)) (GetHashWithSalt ar nonce 100))
                  (g_mul ar (gens_H (GetInstance ar token_id)) (input_value0 ar tx_in)) \<noteq>
         g_add ar (g_mul ar (gens_H (GetInstance ar token_id)) (GetHashWithSalt ar nonce 100))
                  (g_mul ar (gens_G (GetInstance ar token_id)) (vs ! 0))"
  shows "RecoverTxIns ar [tx_in] token_id = []"
proof -
  from Prove_value_commitments [OF assms(1), THEN conjunct2] assms(2)
  have "tx_Vs tx_in ! 0 =
       g_add ar (g_mul ar (gens_H (GetInstance ar token_id)) (GetHashWithSalt ar nonce 100))
                (g_mul ar (gens_G (GetInstance ar token_id)) (vs ! 0))" by simp
  with assms(3,4) have "input_value0_commitment ar (GetInstance ar token_id) tx_in \<noteq>
      tx_Vs tx_in ! 0"
    by (simp add: input_value0_commitment_def Let_def)
  then have "recover_one ar (GetInstance ar token_id) tx_in = None"
    by (intro recover_one_None) simp
  then show ?thesis
    by (simp add: RecoverTxIns_map_filter List.map_filter_def)
qed

text \<open>
  Claim C2, at a failing input.  The value 100 and the eleven bytes of
  \<open>hello world\<close>, packed as \<open>Prove\<close> packs them, with the value committed as \<open>Prove\<close>
  commits it (\<open>H * gamma + G * 100\<close>): recovery with the right shared secret returns
  nothing.  With the same fields and the commitment that recovery recomputes
  (\<open>G * gamma + H * 100\<close>) it returns the amount 100 and the message.
\<close>

theorem recovery_rejects_prover_commitment:
  "RecoverTxIns bls_arith
     [exported_fields bls_arith config_64 (Point 9) hello_world 100 10 6
        (prover_commitment bls_arith (Point 9) 100)] 0 = [] \<and>
   prover_commitment bls_arith (Point 9) 100 \<noteq> recovery_commitment bls_arith (Point 9) 100 \<and>
   map (\<lambda>e. (rec_amount e, rec_message e))
     (RecoverTxIns bls_arith
        [exported_fields bls_arith config_64 (Point 9) hello_world 100 10 6
           (recovery_commitment bls_arith (Point 9) 100)] 0) = [(100, hello_world)]"
  by code_simp

end
